theory Spec2Isabelle
  imports Main "HOL-Library.Word"
begin

unbundle bit_operations_syntax

chapter \<open>The TGA file filter (plug-ins/common/file-tga.c)\<close>

text \<open>
  A shallow embedding of the TrueVision Targa loader and exporter: the header parser and
  its validation, the run-length codec, the sample converters, the row reader, the image
  reader and the exporter. Bytes are \<open>8 word\<close>; the C \<open>int\<close> and \<open>guint\<close> counters never
  leave the range of their type in this code and are natural numbers or integers; every
  assignment to a \<open>guchar\<close> is a conversion to \<open>8 word\<close>. A \<open>FILE *\<close> that is only
  read forward is the list of the bytes not yet read; a buffer is a list of bytes and a
  pointer into it is an offset.
\<close>

section \<open>Data model\<close>

type_synonym byte = "8 word"

text \<open>The struct \<open>tga_info\<close>, without the version 2 extension fields that are never set.\<close>

record tga_info =
  idLength :: nat
  colorMapType :: nat
  imageType :: nat
  imageCompression :: nat
  colorMapIndex :: nat
  colorMapLength :: nat
  colorMapSize :: nat
  xOrigin :: nat
  yOrigin :: nat
  width :: nat
  height :: nat
  bpp :: nat
  bytes :: nat
  alphaBits :: nat
  flipHoriz :: nat
  flipVert :: nat

abbreviation (input) TGA_TYPE_MAPPED :: nat where "TGA_TYPE_MAPPED \<equiv> 1"
abbreviation (input) TGA_TYPE_COLOR :: nat where "TGA_TYPE_COLOR \<equiv> 2"
abbreviation (input) TGA_TYPE_GRAY :: nat where "TGA_TYPE_GRAY \<equiv> 3"
abbreviation (input) TGA_COMP_NONE :: nat where "TGA_COMP_NONE \<equiv> 0"
abbreviation (input) TGA_COMP_RLE :: nat where "TGA_COMP_RLE \<equiv> 1"

text \<open>The image and layer types of libgimp that the filter uses.\<close>

datatype GimpImageBaseType = GIMP_RGB | GIMP_GRAY | GIMP_INDEXED

datatype GimpImageType =
  GIMP_RGB_IMAGE | GIMP_RGBA_IMAGE | GIMP_GRAY_IMAGE | GIMP_GRAYA_IMAGE
  | GIMP_INDEXED_IMAGE | GIMP_INDEXEDA_IMAGE

text \<open>
  The messages with which \<open>load_image\<close> and \<open>ReadImage\<close> give up (each is a
  \<open>g_message\<close> followed by \<open>return NULL\<close>).
\<close>

datatype message =
  Cannot_read_footer | Cannot_read_extension | Cannot_read_header
  | Unhandled_sub_format | Unknown_image_type
  | Indexed_invalid_color_map_type | Non_indexed_invalid_color_map_type
  | Truncated_or_corrupted | Unsupported_colormap_depth

text \<open>
  What a run of the loader comes to: an image, one of the messages, or an operation whose
  behaviour C leaves undefined (here always an access outside the bounds of a buffer),
  at which the model stops.
\<close>

datatype 'a outcome = Returned 'a | Stopped message | Undefined

section \<open>Buffers and streams\<close>

text \<open>
  \<open>fwrite (p, sz, n, fp)\<close> from a buffer: the \<open>sz * n\<close> bytes that start at offset \<open>p\<close>.
  \<open>memcmp (p, q, n) != 0\<close> compares two ranges of one buffer.
\<close>

definition fwrite_from :: "byte list \<Rightarrow> nat \<Rightarrow> nat \<Rightarrow> nat \<Rightarrow> byte list" where
  "fwrite_from mem p sz n = take (sz * n) (drop p mem)"

definition memcmp_differs :: "byte list \<Rightarrow> nat \<Rightarrow> nat \<Rightarrow> nat \<Rightarrow> bool" where
  "memcmp_differs mem p q n = (take n (drop p mem) \<noteq> take n (drop q mem))"

text \<open>Writing the bytes \<open>bs\<close> into a buffer at offset \<open>p\<close>, inside its bounds.\<close>

definition store_bytes :: "byte list \<Rightarrow> nat \<Rightarrow> byte list \<Rightarrow> byte list" where
  "store_bytes mem p bs = take p mem @ bs @ drop (p + length bs) mem"

text \<open>
  \<open>fread (ptr, sz, 1, fp)\<close>: the bytes transferred, the number of complete items (0 or 1;
  0 also when \<open>sz\<close> is 0, as the C standard has it) and the rest of the stream. A short
  item still transfers the bytes that were there.
\<close>

definition fread1 :: "nat \<Rightarrow> byte list \<Rightarrow> byte list \<times> nat \<times> byte list" where
  "fread1 sz fp = (take sz fp, (if sz = 0 then 0 else if sz \<le> length fp then 1 else 0), drop sz fp)"

definition EOF :: int where
  "EOF = - 1"

section \<open>The run-length encoder \<open>rle_write\<close>\<close>

text \<open>
  The locals of \<open>rle_write\<close>: the two counters, the pointers \<open>from\<close> and \<open>buf\<close> as offsets
  into the row, and the bytes written to \<open>fp\<close> so far.
\<close>

record rle_writer =
  w_repeat :: nat
  w_direct :: nat
  w_from :: nat
  w_buf :: nat
  w_fp :: "byte list"

text \<open>
  One turn of the \<open>for\<close> loop: the comparison of the pixel at \<open>buf\<close> with its successor and
  the four branches, then the two flushes at 128, then \<open>buf += bytes\<close>. \<open>putc\<close> converts
  its argument to a byte.
\<close>

definition rle_write_step :: "byte list \<Rightarrow> nat \<Rightarrow> rle_writer \<Rightarrow> rle_writer" where
  "rle_write_step mem sz s =
     (let s1 =
        (if memcmp_differs mem (w_buf s) (w_buf s + sz) sz
         then (if w_repeat s \<noteq> 0
               then s\<lparr>w_fp := w_fp s @ [of_nat (128 + w_repeat s)]
                                   @ fwrite_from mem (w_from s) sz 1,
                      w_from := w_buf s + sz, w_repeat := 0, w_direct := 0\<rparr>
               else s\<lparr>w_direct := w_direct s + 1\<rparr>)
         else (if w_direct s \<noteq> 0
               then s\<lparr>w_fp := w_fp s @ [of_nat (w_direct s - 1)]
                                   @ fwrite_from mem (w_from s) sz (w_direct s),
                      w_from := w_buf s, w_direct := 0, w_repeat := 1\<rparr>
               else s\<lparr>w_repeat := w_repeat s + 1\<rparr>));
          s2 =
        (if w_repeat s1 = 128
         then s1\<lparr>w_fp := w_fp s1 @ [255] @ fwrite_from mem (w_from s1) sz 1,
                 w_from := w_buf s1 + sz, w_direct := 0, w_repeat := 0\<rparr>
         else if w_direct s1 = 128
         then s1\<lparr>w_fp := w_fp s1 @ [127] @ fwrite_from mem (w_from s1) sz (w_direct s1),
                 w_from := w_buf s1 + sz, w_direct := 0, w_repeat := 0\<rparr>
         else s1)
      in s2\<lparr>w_buf := w_buf s2 + sz\<rparr>)"

text \<open>\<open>for (x = 1; x < width; ++x)\<close>.\<close>

function rle_write_loop :: "byte list \<Rightarrow> nat \<Rightarrow> nat \<Rightarrow> nat \<Rightarrow> rle_writer \<Rightarrow> rle_writer" where
  "rle_write_loop mem sz wd x s =
     (if x < wd then rle_write_loop mem sz wd (x + 1) (rle_write_step mem sz s)
      else s)"
  by pat_completeness auto
termination
  by (relation "measure (\<lambda>(mem, sz, wd, x, s). wd - x)") auto

declare rle_write_loop.simps [simp del]

text \<open>
  \<open>rle_write (fp, buf, width, bytes)\<close>: the loop and the last packet. The result is what
  was written to \<open>fp\<close>.
\<close>

definition rle_write :: "byte list \<Rightarrow> nat \<Rightarrow> nat \<Rightarrow> byte list" where
  "rle_write mem wd sz =
     (let s = rle_write_loop mem sz wd 1
                \<lparr>w_repeat = 0, w_direct = 0, w_from = 0, w_buf = 0, w_fp = []\<rparr>
      in if w_repeat s > 0
         then w_fp s @ [of_nat (128 + w_repeat s)] @ fwrite_from mem (w_from s) sz 1
         else w_fp s @ [of_nat (w_direct s)] @ fwrite_from mem (w_from s) sz (w_direct s + 1))"

section \<open>The run-length decoder \<open>rle_read\<close>\<close>

text \<open>
  The three \<open>static\<close> variables of \<open>rle_read\<close>; they keep their values from one call to
  the next, so the state is passed in and returned. \<open>sample\<close> is an array of 4 bytes.
\<close>

record rle_reader =
  r_repeat :: int
  r_direct :: int
  r_sample :: "byte list"

definition rle_reader_init :: rle_reader where
  "rle_reader_init = \<lparr>r_repeat = 0, r_direct = 0, r_sample = [0, 0, 0, 0]\<rparr>"

text \<open>
  The first \<open>if\<close> of the loop body: when both counters are 0 a control byte is read, and
  for a repeat packet the sample after it. The flag is False where the source returns
  \<open>EOF\<close>; the state and the stream are those at that point.
\<close>

definition rle_read_head :: "nat \<Rightarrow> rle_reader \<Rightarrow> byte list \<Rightarrow> bool \<times> rle_reader \<times> byte list" where
  "rle_read_head sz st fp =
     (if r_repeat st = 0 \<and> r_direct st = 0
      then (case fp of
              [] \<Rightarrow> (False, st, fp)
            | head # fp1 \<Rightarrow>
                if uint head \<ge> 128
                then (case fread1 sz fp1 of
                        (got, n, fp2) \<Rightarrow>
                          (\<not> n < 1,
                           st\<lparr>r_repeat := uint head - 127,
                              r_sample := store_bytes (r_sample st) 0 got\<rparr>,
                           fp2))
                else (True, st\<lparr>r_direct := uint head + 1\<rparr>, fp1))
      else (True, st, fp))"

text \<open>
  \<open>for (x = 0; x < info->width; x++)\<close> with the pointer \<open>buf\<close> as an offset into the row
  buffer \<open>mem\<close>. The result is the returned \<open>gint\<close>, the static state, the rest of the
  stream and the row buffer.
\<close>

function rle_read_loop ::
  "nat \<Rightarrow> nat \<Rightarrow> nat \<Rightarrow> rle_reader \<Rightarrow> byte list \<Rightarrow> byte list \<Rightarrow> nat
     \<Rightarrow> int \<times> rle_reader \<times> byte list \<times> byte list" where
  "rle_read_loop wd sz x st fp mem buf =
     (if x < wd
      then (case rle_read_head sz st fp of
              (False, st1, fp1) \<Rightarrow> (EOF, st1, fp1, mem)
            | (True, st1, fp1) \<Rightarrow>
                if r_repeat st1 > 0
                then rle_read_loop wd sz (x + 1) (st1\<lparr>r_repeat := r_repeat st1 - 1\<rparr>) fp1
                       (store_bytes mem buf (take sz (r_sample st1))) (buf + sz)
                else (case fread1 sz fp1 of
                        (got, n, fp2) \<Rightarrow>
                          if n < 1 then (EOF, st1, fp2, store_bytes mem buf got)
                          else rle_read_loop wd sz (x + 1)
                                 (st1\<lparr>r_direct := r_direct st1 - 1\<rparr>) fp2
                                 (store_bytes mem buf got) (buf + sz)))
      else (0, st, fp, mem))"
  by pat_completeness auto
termination
  by (relation "measure (\<lambda>(wd, sz, x, st, fp, mem, buf). wd - x)") auto

declare rle_read_loop.simps [simp del]

definition rle_read ::
  "byte list \<Rightarrow> byte list \<Rightarrow> tga_info \<Rightarrow> rle_reader \<Rightarrow> int \<times> rle_reader \<times> byte list \<times> byte list" where
  "rle_read fp buf info st = rle_read_loop (width info) (bytes info) 0 st fp buf 0"

section \<open>The sample converters\<close>

text \<open>
  Reading one byte of a buffer at an offset; \<open>None\<close> outside its bounds. The offset of a
  colormap lookup is computed in \<open>int\<close> and can be negative, hence \<open>peek_int\<close>.
\<close>

definition peek :: "byte list \<Rightarrow> nat \<Rightarrow> byte option" where
  "peek mem p = (if p < length mem then Some (mem ! p) else None)"

definition peek_int :: "byte list \<Rightarrow> int \<Rightarrow> byte option" where
  "peek_int mem i = (if 0 \<le> i \<and> i < int (length mem) then Some (mem ! nat i) else None)"

definition load_bytes :: "byte list \<Rightarrow> nat \<Rightarrow> nat \<Rightarrow> byte list option" where
  "load_bytes mem p n = (if p + n \<le> length mem then Some (take n (drop p mem)) else None)"

definition store_checked :: "byte list \<Rightarrow> nat \<Rightarrow> byte list \<Rightarrow> byte list option" where
  "store_checked mem p bs = (if p + length bs \<le> length mem then Some (store_bytes mem p bs) else None)"

text \<open>
  The body of the loop of \<open>upsample\<close> on the two bytes \<open>src[0]\<close> and \<open>src[1]\<close> of a pixel:
  the three or four bytes stored at \<open>dest\<close>.
\<close>

definition upsample_pixel :: "byte \<Rightarrow> byte \<Rightarrow> nat \<Rightarrow> byte list" where
  "upsample_pixel s0 s1 alpha =
     (let d0 = push_bit 1 s1 AND 0xf8;
          d0 = d0 + drop_bit 5 d0;
          d1 = drop_bit 2 (s0 AND 0xe0) + push_bit 6 (s1 AND 0x03);
          d1 = d1 + drop_bit 5 d1;
          d2 = push_bit 3 s0 AND 0xf8;
          d2 = d2 + drop_bit 5 d2
      in if alpha \<noteq> 0
         then [d0, d1, d2, if s1 AND 0x80 \<noteq> 0 then 255 else 0]
         else [d0, d1, d2])"

text \<open>
  The converters return the bytes they store through \<open>dest\<close>, in order, or \<open>None\<close> when a
  read leaves the source buffer. The first argument after the buffer is the pointer
  \<open>src\<close> as an offset, the second the number of pixels still to do.
\<close>

fun upsample_from :: "byte list \<Rightarrow> nat \<Rightarrow> nat \<Rightarrow> nat \<Rightarrow> nat \<Rightarrow> byte list option" where
  "upsample_from src p 0 sz alpha = Some []"
| "upsample_from src p (Suc n) sz alpha =
     (case (peek src p, peek src (p + 1)) of
        (Some s0, Some s1) \<Rightarrow>
          map_option ((@) (upsample_pixel s0 s1 alpha)) (upsample_from src (p + sz) n sz alpha)
      | _ \<Rightarrow> None)"

definition upsample :: "byte list \<Rightarrow> nat \<Rightarrow> nat \<Rightarrow> nat \<Rightarrow> byte list option" where
  "upsample src wd sz alpha = upsample_from src 0 wd sz alpha"

fun bgr2rgb_from :: "byte list \<Rightarrow> nat \<Rightarrow> nat \<Rightarrow> nat \<Rightarrow> nat \<Rightarrow> byte list option" where
  "bgr2rgb_from src p 0 sz alpha = Some []"
| "bgr2rgb_from src p (Suc n) sz alpha =
     (if alpha \<noteq> 0
      then (case (peek src (p + 2), peek src (p + 1), peek src p, peek src (p + 3)) of
              (Some r, Some g, Some b, Some a) \<Rightarrow>
                map_option ((@) [r, g, b, a]) (bgr2rgb_from src (p + sz) n sz alpha)
            | _ \<Rightarrow> None)
      else (case (peek src (p + 2), peek src (p + 1), peek src p) of
              (Some r, Some g, Some b) \<Rightarrow>
                map_option ((@) [r, g, b]) (bgr2rgb_from src (p + sz) n sz alpha)
            | _ \<Rightarrow> None))"

definition bgr2rgb :: "byte list \<Rightarrow> nat \<Rightarrow> nat \<Rightarrow> nat \<Rightarrow> byte list option" where
  "bgr2rgb src wd sz alpha = bgr2rgb_from src 0 wd sz alpha"

text \<open>
  \<open>apply_colormap\<close>: the index \<open>*src - index\<close> is computed in \<open>int\<close> (both operands are
  promoted), multiplied by 4 or 3, and the entry read from \<open>cmap\<close> without any check.
\<close>

fun apply_colormap_from ::
  "byte list \<Rightarrow> nat \<Rightarrow> nat \<Rightarrow> byte list \<Rightarrow> bool \<Rightarrow> nat \<Rightarrow> byte list option" where
  "apply_colormap_from src p 0 cmap alpha index = Some []"
| "apply_colormap_from src p (Suc n) cmap alpha index =
     (case peek src p of
        None \<Rightarrow> None
      | Some i \<Rightarrow>
          (if alpha
           then (case (peek_int cmap ((uint i - int index) * 4),
                       peek_int cmap ((uint i - int index) * 4 + 1),
                       peek_int cmap ((uint i - int index) * 4 + 2),
                       peek_int cmap ((uint i - int index) * 4 + 3)) of
                   (Some c0, Some c1, Some c2, Some c3) \<Rightarrow>
                     map_option ((@) [c0, c1, c2, c3])
                       (apply_colormap_from src (p + 1) n cmap alpha index)
                 | _ \<Rightarrow> None)
           else (case (peek_int cmap ((uint i - int index) * 3),
                       peek_int cmap ((uint i - int index) * 3 + 1),
                       peek_int cmap ((uint i - int index) * 3 + 2)) of
                   (Some c0, Some c1, Some c2) \<Rightarrow>
                     map_option ((@) [c0, c1, c2])
                       (apply_colormap_from src (p + 1) n cmap alpha index)
                 | _ \<Rightarrow> None)))"

definition apply_colormap :: "byte list \<Rightarrow> nat \<Rightarrow> byte list \<Rightarrow> bool \<Rightarrow> nat \<Rightarrow> byte list option" where
  "apply_colormap src wd cmap alpha index = apply_colormap_from src 0 wd cmap alpha index"

fun apply_index_from :: "byte list \<Rightarrow> nat \<Rightarrow> nat \<Rightarrow> nat \<Rightarrow> byte list option" where
  "apply_index_from src p 0 index = Some []"
| "apply_index_from src p (Suc n) index =
     (case peek src p of
        None \<Rightarrow> None
      | Some i \<Rightarrow> map_option ((#) (of_int (uint i - int index))) (apply_index_from src (p + 1) n index))"

definition apply_index :: "byte list \<Rightarrow> nat \<Rightarrow> nat \<Rightarrow> byte list option" where
  "apply_index src wd index = apply_index_from src 0 wd index"

text \<open>
  \<open>flip_line\<close>: the pixel at \<open>buf\<close> and the pixel at \<open>alt\<close> change places, byte by byte,
  while \<open>x * 2 < width\<close>; \<open>buf\<close> is pixel \<open>x\<close> and \<open>alt\<close> pixel \<open>width - 1 - x\<close>.
\<close>

function flip_line_loop :: "byte list \<Rightarrow> nat \<Rightarrow> nat \<Rightarrow> nat \<Rightarrow> byte list" where
  "flip_line_loop mem wd sz x =
     (if x * 2 < wd
      then (let a = take sz (drop (x * sz) mem);
                b = take sz (drop ((wd - 1 - x) * sz) mem)
            in flip_line_loop
                 (store_bytes (store_bytes mem (x * sz) b) ((wd - 1 - x) * sz) a) wd sz (x + 1))
      else mem)"
  by pat_completeness auto
termination
  by (relation "measure (\<lambda>(mem, wd, sz, x). wd - x)") auto

declare flip_line_loop.simps [simp del]

definition flip_line :: "byte list \<Rightarrow> tga_info \<Rightarrow> byte list" where
  "flip_line buf info = flip_line_loop buf (width info) (bytes info) 0"

section \<open>Reading a row: \<open>read_line\<close>\<close>

text \<open>
  What \<open>read_line\<close> reads from and keeps between rows: the stream, the row buffer \<open>buf\<close>
  and the static state of \<open>rle_read\<close>.
\<close>

record reader =
  rd_fp :: "byte list"
  rd_buf :: "byte list"
  rd_rle :: rle_reader

text \<open>
  \<open>read_line\<close> fills \<open>buf\<close> from the stream, by \<open>rle_read\<close> or by one \<open>fread\<close> of
  \<open>width\<close> items; the value either call returns is not looked at. Then the row is flipped
  and converted. The result is the new reader state and the bytes stored at \<open>row\<close>
  (\<open>None\<close> when a converter read outside its source). The \<open>g_assert (bpp == 1)\<close> of the
  indexed branch holds whenever the branch is taken, since the layer is then of type
  \<open>GIMP_INDEXED_IMAGE\<close>.
\<close>

definition read_line ::
  "reader \<Rightarrow> tga_info \<Rightarrow> nat \<Rightarrow> byte list option \<Rightarrow> reader \<times> byte list option" where
  "read_line r info lbpp convert_cmap =
     (let r1 = (if imageCompression info = TGA_COMP_RLE
                then (case rle_read (rd_fp r) (rd_buf r) info (rd_rle r) of
                        (res, st, fp, buf) \<Rightarrow> \<lparr>rd_fp = fp, rd_buf = buf, rd_rle = st\<rparr>)
                else r\<lparr>rd_buf := store_bytes (rd_buf r) 0 (take (bytes info * width info) (rd_fp r)),
                       rd_fp := drop (bytes info * width info) (rd_fp r)\<rparr>);
          buf = (if flipHoriz info \<noteq> 0 then flip_line (rd_buf r1) info else rd_buf r1)
      in (r1\<lparr>rd_buf := buf\<rparr>,
          if imageType info = TGA_TYPE_COLOR
          then (if bpp info = 16 \<or> bpp info = 15
                then upsample buf (width info) (bytes info) (alphaBits info)
                else bgr2rgb buf (width info) (bytes info) (alphaBits info))
          else (case convert_cmap of
                  Some cmap \<Rightarrow>
                    apply_colormap buf (width info) cmap (alphaBits info > 0) (colorMapIndex info)
                | None \<Rightarrow>
                    if imageType info = TGA_TYPE_MAPPED
                    then apply_index buf (width info) (colorMapIndex info)
                    else load_bytes buf 0 (width info * lbpp))))"

section \<open>Reading the image: \<open>ReadImage\<close>\<close>

text \<open>
  What \<open>ReadImage\<close> takes from its surroundings: the value of \<open>gimp_tile_height ()\<close>
  (positive), the static state of \<open>rle_read\<close> at the call, and the contents of the three
  blocks that \<open>g_new\<close> returns uninitialised and that the code can read before writing.
\<close>

record read_env =
  max_tileheight :: nat
  rle_static :: rle_reader
  junk_cmap :: "nat \<Rightarrow> byte"
  junk_data :: "nat \<Rightarrow> byte"
  junk_buf :: "nat \<Rightarrow> byte"

definition g_new :: "(nat \<Rightarrow> byte) \<Rightarrow> nat \<Rightarrow> byte list" where
  "g_new junk n = map junk [0..<n]"

text \<open>
  The image that \<open>ReadImage\<close> builds through libgimp: size and base type of the image,
  the colormap given to \<open>gimp_image_set_colormap\<close> if any, and type and pixels of the one
  layer, rows from top to bottom.
\<close>

record gimp_image =
  img_width :: nat
  img_height :: nat
  img_base_type :: GimpImageBaseType
  img_colormap :: "byte list option"
  layer_type :: GimpImageType
  layer_pixels :: "byte list"

text \<open>
  Modelled from the spec: \<open>gimp_drawable_get_bpp\<close> belongs to libgimp and is not in the
  source; the bytes per pixel of a layer of each type are its number of channels
  (\<open>channelsOut\<close> of the data model: 1 for grey or indexed, 2 with alpha, 3 for RGB,
  4 for RGBA).
\<close>

fun drawable_bpp :: "GimpImageType \<Rightarrow> nat" where
  "drawable_bpp GIMP_RGB_IMAGE = 3"
| "drawable_bpp GIMP_RGBA_IMAGE = 4"
| "drawable_bpp GIMP_GRAY_IMAGE = 1"
| "drawable_bpp GIMP_GRAYA_IMAGE = 2"
| "drawable_bpp GIMP_INDEXED_IMAGE = 1"
| "drawable_bpp GIMP_INDEXEDA_IMAGE = 2"

text \<open>
  The first \<open>switch\<close> of \<open>ReadImage\<close>: \<open>itype\<close>, \<open>dtype\<close>, and the sizes of \<open>convert_cmap\<close>
  and \<open>gimp_cmap\<close> where they are allocated. Both types start as 0, which is \<open>GIMP_RGB\<close>
  and \<open>GIMP_RGB_IMAGE\<close>.
\<close>

definition image_types ::
  "tga_info \<Rightarrow> GimpImageBaseType \<times> GimpImageType \<times> nat option \<times> nat option" where
  "image_types info =
     (if imageType info = TGA_TYPE_MAPPED
      then (if colorMapSize info > 24
            then (GIMP_RGB, GIMP_RGBA_IMAGE, Some (colorMapLength info * 4), None)
            else if colorMapIndex info + colorMapLength info > 256
            then (GIMP_RGB, GIMP_RGB_IMAGE, Some (colorMapLength info * 3), None)
            else if alphaBits info > 0
            then (GIMP_RGB, GIMP_RGBA_IMAGE, Some (colorMapLength info * 4), None)
            else (GIMP_INDEXED, GIMP_INDEXED_IMAGE, None, Some (colorMapLength info * 3)))
      else if imageType info = TGA_TYPE_GRAY
      then (GIMP_GRAY, if alphaBits info \<noteq> 0 then GIMP_GRAYA_IMAGE else GIMP_GRAY_IMAGE, None, None)
      else if imageType info = TGA_TYPE_COLOR
      then (GIMP_RGB, if alphaBits info \<noteq> 0 then GIMP_RGBA_IMAGE else GIMP_RGB_IMAGE, None, None)
      else (GIMP_RGB, GIMP_RGB_IMAGE, None, None))"

text \<open>
  The conversion of the colormap read from the file into a block of \<open>n\<close> bytes: the
  converter chosen by \<open>colorMapSize\<close> (32 and 24 only where the source tests for them),
  its output stored from the start of the block. The outer \<open>None\<close> is the unsupported
  depth.
\<close>

definition convert_colormap ::
  "tga_info \<Rightarrow> byte list \<Rightarrow> nat \<Rightarrow> bool \<Rightarrow> byte list option option" where
  "convert_colormap info tga_cmap cmap_bytes with32 =
     (if with32 \<and> colorMapSize info = 32
      then Some (bgr2rgb tga_cmap (colorMapLength info) cmap_bytes 1)
      else if colorMapSize info = 24
      then Some (bgr2rgb tga_cmap (colorMapLength info) cmap_bytes 0)
      else if colorMapSize info = 16 \<or> colorMapSize info = 15
      then Some (upsample tga_cmap (colorMapLength info) cmap_bytes (alphaBits info))
      else None)"

definition store_colormap :: "byte list option option \<Rightarrow> byte list \<Rightarrow> byte list outcome" where
  "store_colormap conv block =
     (case conv of
        None \<Rightarrow> Stopped Unsupported_colormap_depth
      | Some None \<Rightarrow> Undefined
      | Some (Some bs) \<Rightarrow>
          (case store_checked block 0 bs of None \<Rightarrow> Undefined | Some cm \<Rightarrow> Returned cm))"

text \<open>
  The part \<open>Handle colormap\<close>: the rest of the stream, \<open>convert_cmap\<close> and \<open>gimp_cmap\<close>.
  \<open>fread\<close> is not called when \<open>cmap_bytes\<close> is more than 4. One of the two blocks is
  allocated whenever the image is indexed.
\<close>

definition read_colormap ::
  "read_env \<Rightarrow> byte list \<Rightarrow> tga_info \<Rightarrow> nat option \<Rightarrow> nat option
     \<Rightarrow> (byte list \<times> byte list option \<times> byte list option) outcome" where
  "read_colormap env fp info cc_size gc_size =
     (if imageType info = TGA_TYPE_MAPPED
      then (let cmap_bytes = (colorMapSize info + 7) div 8
            in if cmap_bytes \<le> 4
               then (case fread1 (colorMapLength info * cmap_bytes) fp of
                       (tga_cmap, n, fp1) \<Rightarrow>
                         if n = 1
                         then (case cc_size of
                                 Some sz \<Rightarrow>
                                   (case store_colormap (convert_colormap info tga_cmap cmap_bytes True)
                                           (g_new (junk_cmap env) sz) of
                                      Returned cm \<Rightarrow> Returned (fp1, Some cm, None)
                                    | Stopped m \<Rightarrow> Stopped m
                                    | Undefined \<Rightarrow> Undefined)
                               | None \<Rightarrow>
                                   (case gc_size of
                                      Some sz \<Rightarrow>
                                        (case store_colormap
                                                (convert_colormap info tga_cmap cmap_bytes False)
                                                (g_new (junk_cmap env) sz) of
                                           Returned cm \<Rightarrow> Returned (fp1, None, Some cm)
                                         | Stopped m \<Rightarrow> Stopped m
                                         | Undefined \<Rightarrow> Undefined)
                                    | None \<Rightarrow> Undefined))
                         else Stopped Truncated_or_corrupted)
               else Stopped Truncated_or_corrupted)
      else Returned (fp, None, None))"

text \<open>
  For the rows of a tile, the inner \<open>for\<close> statements call \<open>read_line\<close> for one row pointer after the
  other; the pointers are offsets into \<open>data\<close>, and what \<open>read_line\<close> stores must lie
  inside \<open>data\<close>.
\<close>

fun read_lines ::
  "tga_info \<Rightarrow> nat \<Rightarrow> byte list option \<Rightarrow> nat list \<Rightarrow> reader \<Rightarrow> byte list
     \<Rightarrow> (reader \<times> byte list) option" where
  "read_lines info lbpp cc [] r data = Some (r, data)"
| "read_lines info lbpp cc (row # rows) r data =
     (case read_line r info lbpp cc of
        (r1, None) \<Rightarrow> None
      | (r1, Some stored) \<Rightarrow>
          (case store_checked data row stored of
             None \<Rightarrow> None
           | Some data1 \<Rightarrow> read_lines info lbpp cc rows r1 data1))"

text \<open>
  \<open>gegl_buffer_set\<close> on the rectangle of \<open>th\<close> full rows from row \<open>y0\<close>: the rows are
  copied from the start of \<open>data\<close> into the pixels of the layer.
\<close>

definition gegl_buffer_set :: "byte list \<Rightarrow> tga_info \<Rightarrow> nat \<Rightarrow> nat \<Rightarrow> nat \<Rightarrow> byte list \<Rightarrow> byte list" where
  "gegl_buffer_set pixels info lbpp y0 th data =
     store_bytes pixels (y0 * (width info * lbpp)) (take (th * (width info * lbpp)) data)"

text \<open>The height of the tile that starts at row \<open>i\<close> in the loop for \<open>flipVert\<close>.\<close>

definition flip_tileheight :: "nat \<Rightarrow> tga_info \<Rightarrow> nat \<Rightarrow> nat" where
  "flip_tileheight mt info i =
     (let tileheight = (if i \<noteq> 0 then mt else height info mod mt)
      in if tileheight = 0 then mt else tileheight)"

text \<open>
  The two \<open>for\<close> statements over the tiles. Both stop the model when the tile height is 0, which
  needs \<open>gimp_tile_height ()\<close> to be 0.
\<close>

function read_tiles_flip ::
  "nat \<Rightarrow> tga_info \<Rightarrow> nat \<Rightarrow> byte list option \<Rightarrow> nat \<Rightarrow> reader \<Rightarrow> byte list \<Rightarrow> byte list
     \<Rightarrow> byte list option" where
  "read_tiles_flip mt info lbpp cc i r data pixels =
     (if i < height info
      then (if flip_tileheight mt info i = 0 then None
            else (case read_lines info lbpp cc
                         (map (\<lambda>y. width info * lbpp * (flip_tileheight mt info i - y))
                              [1..<flip_tileheight mt info i + 1]) r data of
                    None \<Rightarrow> None
                  | Some (r1, data1) \<Rightarrow>
                      read_tiles_flip mt info lbpp cc (i + flip_tileheight mt info i) r1 data1
                        (gegl_buffer_set pixels info lbpp
                           (height info - i - flip_tileheight mt info i)
                           (flip_tileheight mt info i) data1)))
      else Some pixels)"
  by pat_completeness auto
termination
  by (relation "measure (\<lambda>(mt, info, lbpp, cc, i, r, data, pixels). height info - i)") auto

declare read_tiles_flip.simps [simp del]

function read_tiles ::
  "nat \<Rightarrow> tga_info \<Rightarrow> nat \<Rightarrow> byte list option \<Rightarrow> nat \<Rightarrow> reader \<Rightarrow> byte list \<Rightarrow> byte list
     \<Rightarrow> byte list option" where
  "read_tiles mt info lbpp cc i r data pixels =
     (if i < height info
      then (if mt = 0 then None
            else (case read_lines info lbpp cc
                         (map (\<lambda>y. width info * lbpp * y) [0..<min mt (height info - i)]) r data of
                    None \<Rightarrow> None
                  | Some (r1, data1) \<Rightarrow>
                      read_tiles mt info lbpp cc (i + mt) r1 data1
                        (gegl_buffer_set pixels info lbpp i (min mt (height info - i)) data1)))
      else Some pixels)"
  by pat_completeness auto
termination
  by (relation "measure (\<lambda>(mt, info, lbpp, cc, i, r, data, pixels). height info - i)") auto

declare read_tiles.simps [simp del]

text \<open>
  \<open>ReadImage\<close>. What libgimp does when it creates the image and the layer is not part of
  the model; the layer starts with all bytes 0.
\<close>

definition ReadImage :: "read_env \<Rightarrow> byte list \<Rightarrow> tga_info \<Rightarrow> gimp_image outcome" where
  "ReadImage env fp info =
     (case image_types info of
        (itype, dtype, cc_size, gc_size) \<Rightarrow>
          (case read_colormap env fp info cc_size gc_size of
             Stopped m \<Rightarrow> Stopped m
           | Undefined \<Rightarrow> Undefined
           | Returned (fp1, convert_cmap, gimp_cmap) \<Rightarrow>
               (let lbpp = drawable_bpp dtype;
                    data = g_new (junk_data env) (width info * max_tileheight env * lbpp);
                    buf = g_new (junk_buf env) (width info * bytes info);
                    r = \<lparr>rd_fp = fp1, rd_buf = buf, rd_rle = rle_static env\<rparr>;
                    pixels = replicate (width info * height info * lbpp) 0
                in case (if flipVert info \<noteq> 0
                         then read_tiles_flip (max_tileheight env) info lbpp convert_cmap 0 r data pixels
                         else read_tiles (max_tileheight env) info lbpp convert_cmap 0 r data pixels) of
                     None \<Rightarrow> Undefined
                   | Some px \<Rightarrow>
                       Returned \<lparr>img_width = width info, img_height = height info,
                                 img_base_type = itype, img_colormap = gimp_cmap,
                                 layer_type = dtype, layer_pixels = px\<rparr>)))"

section \<open>Loading a file: \<open>load_image\<close>\<close>

text \<open>The signature \<open>TRUEVISION-XFILE.\<close> with its final 0.\<close>

definition magic :: "byte list" where
  "magic = [0x54, 0x52, 0x55, 0x45, 0x56, 0x49, 0x53, 0x49, 0x4f,
            0x4e, 0x2d, 0x58, 0x46, 0x49, 0x4c, 0x45, 0x2e, 0x0]"

text \<open>
  The first part of \<open>load_image\<close>, on the bytes of the whole file: the seek to 26 bytes
  before the end fails on a shorter file; the footer is read and compared with the
  signature; a nonzero offset (a \<open>long\<close> of 64 bits, so the seek to it succeeds) is
  followed by a read of the 495 bytes of the extension area. The result is the message
  with which \<open>load_image\<close> returns \<open>NULL\<close> in this part, if it does.
\<close>

definition footer_probe :: "byte list \<Rightarrow> message option" where
  "footer_probe file =
     (if 26 \<le> length file
      then (case fread1 26 (drop (length file - 26) file) of
              (footer, n, rest) \<Rightarrow>
                if n \<noteq> 1 then Some Cannot_read_footer
                else if take 18 (drop 8 footer) = magic
                then (let offset = unat (footer ! 0) + unat (footer ! 1) * 256
                                   + unat (footer ! 2) * 65536 + unat (footer ! 3) * 16777216
                      in if offset \<noteq> 0
                         then (case fread1 495 (drop offset file) of
                                 (extension, m, rest1) \<Rightarrow>
                                   if m \<noteq> 1 then Some Cannot_read_extension else None)
                         else None)
                else None)
      else None)"

text \<open>
  The fields of \<open>info\<close> as \<open>load_image\<close> sets them from the 18 bytes of the header. For an
  unknown type code the source leaves \<open>imageCompression\<close> unset; it is not read then.
\<close>

definition header_info :: "byte list \<Rightarrow> tga_info" where
  "header_info header =
     \<lparr>idLength = unat (header ! 0),
      colorMapType = unat (header ! 1),
      imageType = (if header ! 2 = 1 \<or> header ! 2 = 9 then TGA_TYPE_MAPPED
                   else if header ! 2 = 2 \<or> header ! 2 = 10 then TGA_TYPE_COLOR
                   else if header ! 2 = 3 \<or> header ! 2 = 11 then TGA_TYPE_GRAY
                   else 0),
      imageCompression = (if header ! 2 = 9 \<or> header ! 2 = 10 \<or> header ! 2 = 11
                          then TGA_COMP_RLE else TGA_COMP_NONE),
      colorMapIndex = unat (header ! 3) + unat (header ! 4) * 256,
      colorMapLength = unat (header ! 5) + unat (header ! 6) * 256,
      colorMapSize = unat (header ! 7),
      xOrigin = unat (header ! 8) + unat (header ! 9) * 256,
      yOrigin = unat (header ! 10) + unat (header ! 11) * 256,
      width = unat (header ! 12) + unat (header ! 13) * 256,
      height = unat (header ! 14) + unat (header ! 15) * 256,
      bpp = unat (header ! 16),
      bytes = (unat (header ! 16) + 7) div 8,
      alphaBits = unat (header ! 17 AND 0x0f),
      flipHoriz = (if header ! 17 AND 0x10 \<noteq> 0 then 1 else 0),
      flipVert = (if header ! 17 AND 0x20 \<noteq> 0 then 0 else 1)\<rparr>"

text \<open>The two corrections of \<open>alphaBits\<close> (bugs 306675 and 540969), in the order of the source.\<close>

definition fix_alpha_bits :: "tga_info \<Rightarrow> tga_info" where
  "fix_alpha_bits info =
     (let info1 = (if alphaBits info = bpp info then info\<lparr>alphaBits := 0\<rparr> else info)
      in if alphaBits info1 = 0
         then (let info2 = (if imageType info1 = TGA_TYPE_MAPPED \<and> colorMapSize info1 = 32
                            then info1\<lparr>alphaBits := 8\<rparr> else info1);
                   info3 = (if imageType info2 = TGA_TYPE_COLOR \<and> bpp info2 = 32
                            then info2\<lparr>alphaBits := 8\<rparr> else info2)
               in if imageType info3 = TGA_TYPE_GRAY \<and> bpp info3 = 16
                  then info3\<lparr>alphaBits := 8\<rparr> else info3)
         else info1)"

text \<open>
  The \<open>switch\<close> on \<open>info.imageType\<close> and the test \<open>Plausible but unhandled formats\<close> after
  it: the message with which the header is refused, if it is.
\<close>

definition check_sub_format :: "tga_info \<Rightarrow> message option" where
  "check_sub_format info =
     (if imageType info = TGA_TYPE_MAPPED \<and> bpp info \<noteq> 8
      then Some Unhandled_sub_format
      else if imageType info = TGA_TYPE_COLOR \<and>
              ((bpp info \<noteq> 15 \<and> bpp info \<noteq> 16 \<and> bpp info \<noteq> 24 \<and> bpp info \<noteq> 32) \<or>
               ((bpp info = 15 \<or> bpp info = 24) \<and> alphaBits info \<noteq> 0) \<or>
               (bpp info = 16 \<and> alphaBits info \<noteq> 1 \<and> alphaBits info \<noteq> 0) \<or>
               (bpp info = 32 \<and> alphaBits info \<noteq> 8))
      then Some Unhandled_sub_format
      else if imageType info = TGA_TYPE_GRAY \<and>
              (bpp info \<noteq> 8 \<and> (alphaBits info \<noteq> 8 \<or> (bpp info \<noteq> 16 \<and> bpp info \<noteq> 15)))
      then Some Unhandled_sub_format
      else if imageType info \<noteq> TGA_TYPE_MAPPED \<and> imageType info \<noteq> TGA_TYPE_COLOR \<and>
              imageType info \<noteq> TGA_TYPE_GRAY
      then Some Unknown_image_type
      else if bytes info * 8 \<noteq> bpp info \<and> bpp info \<noteq> 15
      then Some Unhandled_sub_format
      else None)"

definition check_color_map_type :: "tga_info \<Rightarrow> message option" where
  "check_color_map_type info =
     (if imageType info = TGA_TYPE_MAPPED \<and> colorMapType info \<noteq> 1
      then Some Indexed_invalid_color_map_type
      else if imageType info \<noteq> TGA_TYPE_MAPPED \<and> colorMapType info \<noteq> 0
      then Some Non_indexed_invalid_color_map_type
      else None)"

text \<open>
  \<open>load_image\<close> from the seek to offset 0 on: the header, the checks, the skip over the
  image ID (a seek forward, which does not fail) and \<open>ReadImage\<close>.
\<close>

definition load_from_header :: "read_env \<Rightarrow> byte list \<Rightarrow> gimp_image outcome" where
  "load_from_header env file =
     (case fread1 18 file of
        (header, n, fp) \<Rightarrow>
          if n \<noteq> 1 then Stopped Cannot_read_header
          else (let info = fix_alpha_bits (header_info header)
                in case check_sub_format info of
                     Some m \<Rightarrow> Stopped m
                   | None \<Rightarrow>
                       (case check_color_map_type info of
                          Some m \<Rightarrow> Stopped m
                        | None \<Rightarrow> ReadImage env (drop (idLength info) fp) info)))"

definition load_image :: "read_env \<Rightarrow> byte list \<Rightarrow> gimp_image outcome" where
  "load_image env file =
     (case footer_probe file of
        Some m \<Rightarrow> Stopped m
      | None \<Rightarrow> load_from_header env file)"

section \<open>Exporting: \<open>save_image\<close>\<close>

text \<open>
  The 18 bytes of the header as \<open>save_image\<close> fills them from the type of the drawable,
  the size, the number of colours of the colormap and the two options. \<open>origin\<close> is the
  enum \<open>TgaOrigin\<close> used as a truth value; every assignment converts to a byte.
\<close>

definition save_header :: "GimpImageType \<Rightarrow> nat \<Rightarrow> nat \<Rightarrow> nat \<Rightarrow> bool \<Rightarrow> nat \<Rightarrow> byte list" where
  "save_header dtype wd ht num_colors rle origin =
     [0]
     @ (if dtype = GIMP_INDEXED_IMAGE
        then [1, if rle then 9 else 1, 0, 0,
              of_nat (num_colors mod 256), of_nat (num_colors div 256), 24]
        else if dtype = GIMP_INDEXEDA_IMAGE
        then [1, if rle then 9 else 1, 0, 0,
              of_nat ((num_colors + 1) mod 256), of_nat ((num_colors + 1) div 256), 32]
        else [0,
              if dtype = GIMP_RGB_IMAGE \<or> dtype = GIMP_RGBA_IMAGE
              then (if rle then 10 else 2) else (if rle then 11 else 3),
              0, 0, 0, 0, 0])
     @ [0, 0,
        if origin \<noteq> 0 then 0 else of_nat (ht mod 256),
        if origin \<noteq> 0 then 0 else of_nat (ht div 256),
        of_nat (wd mod 256), of_nat (wd div 256),
        of_nat (ht mod 256), of_nat (ht div 256)]
     @ (case dtype of
          GIMP_INDEXED_IMAGE \<Rightarrow> [8, if origin \<noteq> 0 then 0 else 0x20]
        | GIMP_INDEXEDA_IMAGE \<Rightarrow> [8, if origin \<noteq> 0 then 0 else 0x20]
        | GIMP_GRAY_IMAGE \<Rightarrow> [8, if origin \<noteq> 0 then 0 else 0x20]
        | GIMP_GRAYA_IMAGE \<Rightarrow> [16, if origin \<noteq> 0 then 8 else 0x28]
        | GIMP_RGB_IMAGE \<Rightarrow> [24, if origin \<noteq> 0 then 0 else 0x20]
        | GIMP_RGBA_IMAGE \<Rightarrow> [32, if origin \<noteq> 0 then 8 else 0x28])"

fun out_bpp :: "GimpImageType \<Rightarrow> nat" where
  "out_bpp GIMP_INDEXED_IMAGE = 1"
| "out_bpp GIMP_INDEXEDA_IMAGE = 1"
| "out_bpp GIMP_GRAY_IMAGE = 1"
| "out_bpp GIMP_GRAYA_IMAGE = 2"
| "out_bpp GIMP_RGB_IMAGE = 3"
| "out_bpp GIMP_RGBA_IMAGE = 4"

text \<open>
  The exporter is modelled by the bytes it has passed to \<open>fputc\<close>, \<open>fwrite\<close> and
  \<open>rle_write\<close>, in the order of the calls, together with a flag that says whether every
  access so far stayed inside its block. A block is a byte list of the size it was
  allocated with. The model stops at the first access outside a block, and the bytes are
  then those written before that access.
\<close>

text \<open>
  The loop that writes the palette: for each colour \<open>i\<close> the bytes 2, 1 and 0 of its
  entry in \<open>gimp_cmap\<close>, in this order, and 255 after them for an image with alpha.
\<close>

fun palette_from :: "byte list \<Rightarrow> nat \<Rightarrow> nat \<Rightarrow> bool \<Rightarrow> byte list \<times> bool" where
  "palette_from gimp_cmap i 0 with_alpha = ([], True)"
| "palette_from gimp_cmap i (Suc n) with_alpha =
     (case peek gimp_cmap (i * 3 + 2) of
        None \<Rightarrow> ([], False)
      | Some b \<Rightarrow>
          (case peek gimp_cmap (i * 3 + 1) of
             None \<Rightarrow> ([b], False)
           | Some g \<Rightarrow>
               (case peek gimp_cmap (i * 3 + 0) of
                  None \<Rightarrow> ([b, g], False)
                | Some r \<Rightarrow>
                    apfst ((@) ([b, g, r] @ (if with_alpha then [255] else [])))
                      (palette_from gimp_cmap (i + 1) n with_alpha))))"

text \<open>
  The palette of an indexed image; for an image with alpha the four calls \<open>fputc (0, fp)\<close>
  follow the loop. Other images have no palette.
\<close>

definition save_palette :: "GimpImageType \<Rightarrow> nat \<Rightarrow> byte list \<Rightarrow> byte list \<times> bool" where
  "save_palette dtype num_colors gimp_cmap =
     (if dtype = GIMP_INDEXED_IMAGE then palette_from gimp_cmap 0 num_colors False
      else if dtype = GIMP_INDEXEDA_IMAGE
      then (case palette_from gimp_cmap 0 num_colors True of
              (written, ok) \<Rightarrow> if ok then (written @ [0, 0, 0, 0], True) else (written, False))
      else ([], True))"

text \<open>
  \<open>gegl_buffer_get\<close> stores the row that the drawable delivers at the start of the block
  \<open>pixels\<close>; \<open>None\<close> when the row is longer than the block. For an indexed image the
  format passed is \<open>NULL\<close> and the row comes in the layout of the drawable.
\<close>

definition gegl_buffer_get :: "byte list \<Rightarrow> byte list \<Rightarrow> byte list option" where
  "gegl_buffer_get delivered pixels = store_checked pixels 0 delivered"

text \<open>
  The loop over the pixels of a row of an indexed image with alpha: it reads
  \<open>pixels[i * 2 + 1]\<close> and \<open>pixels[i * 2]\<close>, and \<open>data[i] = num_colors\<close> converts the
  number of colours to a byte. \<open>None\<close> when a read leaves the block \<open>pixels\<close>.
\<close>

fun indexeda_from :: "byte list \<Rightarrow> nat \<Rightarrow> nat \<Rightarrow> nat \<Rightarrow> byte list option" where
  "indexeda_from pixels i 0 num_colors = Some []"
| "indexeda_from pixels i (Suc n) num_colors =
     (case peek pixels (i * 2 + 1) of
        None \<Rightarrow> None
      | Some a \<Rightarrow>
          if unat a > 127
          then (case peek pixels (i * 2) of
                  None \<Rightarrow> None
                | Some ix \<Rightarrow> map_option ((#) ix) (indexeda_from pixels (i + 1) n num_colors))
          else map_option ((#) (of_nat num_colors)) (indexeda_from pixels (i + 1) n num_colors))"

text \<open>
  One turn of the loop over the rows, up to the row \<open>data\<close>: \<open>pixels\<close> is the block of
  \<open>width * out_bpp\<close> bytes that \<open>save_image\<close> allocated, \<open>delivered\<close> the row that
  \<open>gegl_buffer_get\<close> puts into it. The result is the block as it is afterwards and the
  bytes stored in \<open>data\<close>; \<open>None\<close> when the delivered row does not fit the block or a read
  leaves it. Every branch stores \<open>width * out_bpp\<close> bytes in \<open>data\<close>, a block of that
  size, so these stores stay inside it and nothing of its former content is left.
\<close>

definition save_row_data ::
  "GimpImageType \<Rightarrow> nat \<Rightarrow> nat \<Rightarrow> byte list \<Rightarrow> byte list \<Rightarrow> (byte list \<times> byte list) option" where
  "save_row_data dtype wd num_colors pixels delivered =
     (case gegl_buffer_get delivered pixels of
        None \<Rightarrow> None
      | Some filled \<Rightarrow>
          map_option (Pair filled)
            (if dtype = GIMP_RGB_IMAGE then bgr2rgb filled wd (out_bpp dtype) 0
             else if dtype = GIMP_RGBA_IMAGE then bgr2rgb filled wd (out_bpp dtype) 1
             else if dtype = GIMP_INDEXEDA_IMAGE then indexeda_from filled 0 wd num_colors
             else load_bytes filled 0 (wd * out_bpp dtype)))"

text \<open>
  The loop over the rows, from row \<open>row\<close> for \<open>n\<close> more rows, on the block \<open>pixels\<close>;
  \<open>get_row y\<close> is the row \<open>y\<close> of the drawable as \<open>gegl_buffer_get\<close> delivers it. The
  result is the bytes written and whether the loop came to its end.
\<close>

fun save_rows ::
  "GimpImageType \<Rightarrow> nat \<Rightarrow> nat \<Rightarrow> (nat \<Rightarrow> byte list) \<Rightarrow> nat \<Rightarrow> bool \<Rightarrow> nat \<Rightarrow> byte list
     \<Rightarrow> nat \<Rightarrow> nat \<Rightarrow> byte list \<times> bool" where
  "save_rows dtype wd ht get_row num_colors rle origin pixels row 0 = ([], True)"
| "save_rows dtype wd ht get_row num_colors rle origin pixels row (Suc n) =
     (case save_row_data dtype wd num_colors pixels
             (get_row (if origin \<noteq> 0 then ht - (row + 1) else row)) of
        None \<Rightarrow> ([], False)
      | Some (filled, data) \<Rightarrow>
          apfst ((@) (if rle then rle_write data wd (out_bpp dtype)
                      else fwrite_from data 0 (wd * out_bpp dtype) 1))
            (save_rows dtype wd ht get_row num_colors rle origin filled (row + 1) n))"

text \<open>
  \<open>save_image\<close>: the bytes written to the file and how the function ends. \<open>opened\<close> says
  whether \<open>g_fopen\<close> gave a file; the function returns \<open>FALSE\<close> when it did not, and
  \<open>TRUE\<close> after the footer otherwise. \<open>gimp_cmap\<close> and \<open>num_colors\<close> are what
  \<open>gimp_image_get_colormap\<close> gives, and \<open>junk\<close> is the content of the block \<open>pixels\<close> as
  \<open>g_new\<close> returns it.
\<close>

definition save_image ::
  "bool \<Rightarrow> GimpImageType \<Rightarrow> nat \<Rightarrow> nat \<Rightarrow> (nat \<Rightarrow> byte list) \<Rightarrow> nat \<Rightarrow> byte list \<Rightarrow> bool \<Rightarrow> nat
     \<Rightarrow> (nat \<Rightarrow> byte) \<Rightarrow> byte list \<times> bool outcome" where
  "save_image opened dtype wd ht get_row num_colors gimp_cmap rle origin junk =
     (if \<not> opened then ([], Returned False)
      else
        (case save_palette dtype num_colors gimp_cmap of
           (palette, ok) \<Rightarrow>
             if \<not> ok then (save_header dtype wd ht num_colors rle origin @ palette, Undefined)
             else
               (case save_rows dtype wd ht get_row num_colors rle origin
                       (g_new junk (wd * out_bpp dtype)) 0 ht of
                  (rows, finished) \<Rightarrow>
                    if \<not> finished
                    then (save_header dtype wd ht num_colors rle origin @ palette @ rows, Undefined)
                    else (save_header dtype wd ht num_colors rle origin @ palette @ rows
                          @ replicate 8 0 @ magic, Returned True))))"

section \<open>Packets\<close>

text \<open>
  A packet of the run-length stream as the format describes it: the declared pixel count
  and the payload, one record for a repeat packet and count records for a direct one.
  \<open>packet_bytes\<close> is its encoding, \<open>packet_pixels\<close> the pixels it stands for, and
  \<open>packet_ok\<close> says that the count is between 1 and 128 and the payload made of whole
  records.
\<close>

datatype packet = Repeat_packet nat "byte list" | Direct_packet nat "byte list"

fun packet_count :: "packet \<Rightarrow> nat" where
  "packet_count (Repeat_packet n r) = n"
| "packet_count (Direct_packet n rs) = n"

fun packet_bytes :: "packet \<Rightarrow> byte list" where
  "packet_bytes (Repeat_packet n r) = of_nat (127 + n) # r"
| "packet_bytes (Direct_packet n rs) = of_nat (n - 1) # rs"

fun packet_pixels :: "packet \<Rightarrow> byte list" where
  "packet_pixels (Repeat_packet n r) = concat (replicate n r)"
| "packet_pixels (Direct_packet n rs) = rs"

fun packet_ok :: "nat \<Rightarrow> packet \<Rightarrow> bool" where
  "packet_ok b (Repeat_packet n r) = (1 \<le> n \<and> n \<le> 128 \<and> length r = b)"
| "packet_ok b (Direct_packet n rs) = (1 \<le> n \<and> n \<le> 128 \<and> length rs = n * b)"

text \<open>
  Cutting a byte stream into packets, for records of \<open>b\<close> bytes: the control byte gives
  the kind and the count, and the stream must hold the whole payload. \<open>None\<close> when the
  stream ends inside a packet.
\<close>

function split_packets :: "nat \<Rightarrow> byte list \<Rightarrow> packet list option" where
  "split_packets b [] = Some []"
| "split_packets b (h # rest) =
     (if 128 \<le> unat h
      then (if length rest < b then None
            else map_option (Cons (Repeat_packet (unat h - 127) (take b rest)))
                            (split_packets b (drop b rest)))
      else (if length rest < (unat h + 1) * b then None
            else map_option (Cons (Direct_packet (unat h + 1) (take ((unat h + 1) * b) rest)))
                            (split_packets b (drop ((unat h + 1) * b) rest))))"
  by pat_completeness auto
termination
  by (relation "measure (\<lambda>(b, s). length s)") auto

text \<open>
  For the proofs about the encoder: the record \<open>i\<close> of a row, a run of equal records, and
  the invariant of the loop of \<open>rle_write\<close>. At the top of a turn \<open>buf\<close> is at record \<open>k\<close>,
  \<open>from\<close> at record \<open>j\<close>, the bytes written are the packets \<open>ps\<close>, which stand for the
  records before \<open>j\<close>, and one of the counters holds \<open>k - j\<close>.
\<close>

definition pixel_at :: "byte list \<Rightarrow> nat \<Rightarrow> nat \<Rightarrow> byte list" where
  "pixel_at mem b i = take b (drop (i * b) mem)"

definition run_same :: "byte list \<Rightarrow> nat \<Rightarrow> nat \<Rightarrow> nat \<Rightarrow> bool" where
  "run_same mem b j k \<longleftrightarrow> (\<forall>i. j \<le> i \<and> i \<le> k \<longrightarrow> pixel_at mem b i = pixel_at mem b j)"

definition writer_inv :: "byte list \<Rightarrow> nat \<Rightarrow> nat \<Rightarrow> nat \<Rightarrow> packet list \<Rightarrow> rle_writer \<Rightarrow> bool" where
  "writer_inv mem b k j ps s \<longleftrightarrow>
     w_buf s = k * b \<and> w_from s = j * b \<and> j \<le> k \<and>
     w_fp s = concat (map packet_bytes ps) \<and>
     list_all (packet_ok b) ps \<and>
     concat (map packet_pixels ps) = take (j * b) mem \<and>
     sum_list (map packet_count ps) = j \<and>
     ((w_repeat s = 0 \<and> w_direct s = k - j \<and> k - j < 128) \<or>
      (w_direct s = 0 \<and> w_repeat s = k - j \<and> 0 < k - j \<and> k - j < 128 \<and>
       run_same mem b j k))"

section \<open>Channels of a 16-bit pixel\<close>

text \<open>
  The 16-bit pixel that the two bytes of a record hold, low byte first, its 5-bit
  channel at bit \<open>k\<close> (red at 10, green at 5, blue at 0), and the spread of a 5-bit
  value over 8 bits in the words of the specification: the value in the top five bits,
  its top three bits again in the low three.
\<close>

definition pixel16 :: "byte \<Rightarrow> byte \<Rightarrow> nat" where
  "pixel16 s0 s1 = unat s0 + 256 * unat s1"

definition channel5 :: "nat \<Rightarrow> nat \<Rightarrow> nat" where
  "channel5 p k = p div 2 ^ k mod 32"

definition spread5 :: "nat \<Rightarrow> nat" where
  "spread5 v = v * 8 + v div 4"

section \<open>The table of sub-formats\<close>

text \<open>
  The combinations of kind, bits per pixel and alpha bits that the specification lists as
  valid, in its words: Mapped with 8 bits; Truecolor with 15 or 24 bits and no alpha
  bits, 16 bits and 0 or 1 alpha bits, 32 bits and 8 alpha bits; Grayscale with 8 bits,
  or with 15 or 16 bits and 8 alpha bits.
\<close>

definition accepted_sub_format :: "nat \<Rightarrow> nat \<Rightarrow> nat \<Rightarrow> bool" where
  "accepted_sub_format kind bits alpha \<longleftrightarrow>
     kind = TGA_TYPE_MAPPED \<and> bits = 8 \<or>
     kind = TGA_TYPE_COLOR \<and>
       ((bits = 15 \<or> bits = 24) \<and> alpha = 0 \<or>
        bits = 16 \<and> (alpha = 0 \<or> alpha = 1) \<or>
        bits = 32 \<and> alpha = 8) \<or>
     kind = TGA_TYPE_GRAY \<and> (bits = 8 \<or> (bits = 15 \<or> bits = 16) \<and> alpha = 8)"

section \<open>Example inputs\<close>

text \<open>
  An environment for running the loader on examples: tiles of 64 rows, the static state of
  \<open>rle_read\<close> as the program starts with it, and fresh blocks that happen to hold 0.
\<close>

definition plain_env :: read_env where
  "plain_env = \<lparr>max_tileheight = 64, rle_static = rle_reader_init,
                 junk_cmap = (\<lambda>_. 0), junk_data = (\<lambda>_. 0), junk_buf = (\<lambda>_. 0)\<rparr>"

text \<open>
  Two files whose pixel data end early: a 2 by 2 grey image, run-length encoded, with one
  repeat packet of two pixels and nothing for the second row; and a 2 by 2 grey image,
  not encoded, with one byte of pixel data.
\<close>

definition truncated_rle_file :: "byte list" where
  "truncated_rle_file = [0, 0, 11, 0, 0, 0, 0, 0, 0, 0, 0, 0, 2, 0, 2, 0, 8, 0x20] @ [0x81, 5]"

definition truncated_raw_file :: "byte list" where
  "truncated_raw_file = [0, 0, 3, 0, 0, 0, 0, 0, 0, 0, 0, 0, 2, 0, 2, 0, 8, 0x20] @ [1]"

section \<open>The footer of a file\<close>

text \<open>
  The last 26 bytes of a file of at least 26 bytes, whether they end in the signature,
  and the extension offset in their first four bytes, low byte first.
\<close>

definition trailer :: "byte list \<Rightarrow> byte list" where
  "trailer file = drop (length file - 26) file"

definition has_signature :: "byte list \<Rightarrow> bool" where
  "has_signature file \<longleftrightarrow> 26 \<le> length file \<and> take 18 (drop 8 (trailer file)) = magic"

definition extension_offset :: "byte list \<Rightarrow> nat" where
  "extension_offset file =
     unat (trailer file ! 0) + unat (trailer file ! 1) * 256
     + unat (trailer file ! 2) * 65536 + unat (trailer file ! 3) * 16777216"

text \<open>
  A file with a footer whose extension offset is 1 and which is too short to hold an
  extension area there: the header of a 1 by 1 grey image, its pixel, and the footer.
\<close>

definition short_extension_file :: "byte list" where
  "short_extension_file =
     [0, 0, 3, 0, 0, 0, 0, 0, 0, 0, 0, 0, 1, 0, 1, 0, 8, 0x20] @ [7]
     @ [1, 0, 0, 0, 0, 0, 0, 0] @ magic"

section \<open>Colormap entries\<close>

text \<open>
  Entry \<open>e\<close> of a table of entries of \<open>k\<close> bytes, and the indices that lie in the range
  of a colormap that starts at index \<open>first\<close> and has \<open>n\<close> entries.
\<close>

definition cmap_entry :: "byte list \<Rightarrow> nat \<Rightarrow> nat \<Rightarrow> byte list" where
  "cmap_entry cmap k e = take k (drop (e * k) cmap)"

definition index_in_range :: "nat \<Rightarrow> nat \<Rightarrow> byte \<Rightarrow> bool" where
  "index_in_range first n i \<longleftrightarrow> first \<le> unat i \<and> unat i < first + n"

text \<open>
  An accepted file whose one pixel has index 5 while its colormap has one entry of 32
  bits, starting at index 0.
\<close>

definition index_out_of_range_file :: "byte list" where
  "index_out_of_range_file =
     [0, 1, 1, 0, 0, 1, 0, 32, 0, 0, 0, 0, 1, 0, 1, 0, 8, 0x20] @ [10, 20, 30, 40] @ [5]"

section \<open>Example drawables\<close>

text \<open>
  A fresh block that happens to hold 0, and three drawables of one row: one pixel of an
  indexed image with alpha (index 0, alpha 0), two such pixels (index 1 with alpha 255,
  index 0 with alpha 0), and two grey pixels.
\<close>

definition zero_block :: "nat \<Rightarrow> byte" where
  "zero_block i = 0"

definition transparent_pixel :: "nat \<Rightarrow> byte list" where
  "transparent_pixel y = [0, 0]"

definition opaque_and_transparent :: "nat \<Rightarrow> byte list" where
  "opaque_and_transparent y = [1, 255, 0, 0]"

definition grey_pixels :: "nat \<Rightarrow> byte list" where
  "grey_pixels y = [7, 9]"

section \<open>The encoder writes whole packets\<close>

lemma fwrite_from_length:
  "(j + n) * b \<le> length mem \<Longrightarrow> length (fwrite_from mem (j * b) b n) = n * b"
  by (simp add: fwrite_from_def algebra_simps)

lemma fwrite_from_take:
  "take (j * b) mem @ fwrite_from mem (j * b) b n = take ((j + n) * b) mem"
  by (simp add: fwrite_from_def take_add algebra_simps)

lemma fwrite_from_Suc:
  "fwrite_from mem (j * b) b (Suc n) = fwrite_from mem (j * b) b n @ pixel_at mem b (j + n)"
proof -
  have "b * Suc n = b * n + b" by simp
  then have "take (b * Suc n) (drop (j * b) mem)
        = take (b * n) (drop (j * b) mem) @ take b (drop (b * n) (drop (j * b) mem))"
    by (simp only: take_add)
  then show ?thesis
    by (simp add: fwrite_from_def pixel_at_def add.commute mult.commute distrib_left)
qed

lemma fwrite_from_one: "fwrite_from mem (j * b) b (Suc 0) = pixel_at mem b j"
  by (simp add: fwrite_from_def pixel_at_def)

lemma fwrite_from_same:
  "(\<And>i. j \<le> i \<Longrightarrow> i < j + n \<Longrightarrow> pixel_at mem b i = pixel_at mem b j) \<Longrightarrow>
   concat (replicate n (pixel_at mem b j)) = fwrite_from mem (j * b) b n"
proof (induction n)
  case 0
  show ?case by (simp add: fwrite_from_def)
next
  case (Suc n)
  have "concat (replicate n (pixel_at mem b j)) = fwrite_from mem (j * b) b n"
  proof (rule Suc.IH)
    fix i assume "j \<le> i" "i < j + n"
    then show "pixel_at mem b i = pixel_at mem b j"
      by (intro Suc.prems) arith+
  qed
  moreover have "pixel_at mem b (j + n) = pixel_at mem b j"
    by (rule Suc.prems) arith+
  moreover have "replicate (Suc n) (pixel_at mem b j) = replicate n (pixel_at mem b j) @ [pixel_at mem b j]"
    by (simp add: replicate_append_same)
  then have "concat (replicate (Suc n) (pixel_at mem b j))
             = concat (replicate n (pixel_at mem b j)) @ pixel_at mem b j"
    by (simp only: concat_append concat.simps append_Nil2)
  ultimately show ?case
    by (simp only: fwrite_from_Suc)
qed

lemma pixel_at_length: "(i + 1) * b \<le> length mem \<Longrightarrow> length (pixel_at mem b i) = b"
  by (simp add: pixel_at_def)

lemma memcmp_differs_pixels:
  "memcmp_differs mem (k * b) (k * b + b) b \<longleftrightarrow> pixel_at mem b k \<noteq> pixel_at mem b (Suc k)"
  by (simp add: memcmp_differs_def pixel_at_def add.commute)

lemma take_pixels_repeat:
  assumes "j \<le> k" "run_same mem b j k"
  shows "take (j * b) mem @ concat (replicate (Suc (k - j)) (pixel_at mem b j))
         = take (Suc k * b) mem"
proof -
  have "concat (replicate (Suc (k - j)) (pixel_at mem b j)) = fwrite_from mem (j * b) b (Suc (k - j))"
  proof (rule fwrite_from_same)
    fix i assume "j \<le> i" "i < j + Suc (k - j)"
    then have "j \<le> i \<and> i \<le> k" using assms(1) by arith
    with assms(2) show "pixel_at mem b i = pixel_at mem b j"
      unfolding run_same_def by blast
  qed
  moreover have "j + Suc (k - j) = Suc k" using assms(1) by simp
  ultimately show ?thesis
    using fwrite_from_take [of j b mem "Suc (k - j)"] by simp
qed

lemma pixel_at_length_le:
  "i \<le> k \<Longrightarrow> (k + 2) * b \<le> length mem \<Longrightarrow> length (pixel_at mem b i) = b"
proof -
  assume a: "i \<le> k" "(k + 2) * b \<le> length mem"
  have "(i + 1) * b \<le> (k + 2) * b" using a(1) by (intro mult_le_mono1) simp
  with a(2) show ?thesis by (intro pixel_at_length) simp
qed

lemma writer_step_diff_repeat:
  assumes inv: "writer_inv mem b k j ps s" and len: "(k + 2) * b \<le> length mem"
    and diff: "pixel_at mem b k \<noteq> pixel_at mem b (Suc k)" and rep: "w_repeat s \<noteq> 0"
  shows "writer_inv mem b (Suc k) (Suc k) (ps @ [Repeat_packet (Suc (k - j)) (pixel_at mem b j)])
           (rle_write_step mem b s)"
proof -
  from inv rep have f: "w_buf s = k * b" "w_from s = j * b" "j \<le> k"
    "w_fp s = concat (map packet_bytes ps)" "list_all (packet_ok b) ps"
    "concat (map packet_pixels ps) = take (j * b) mem" "sum_list (map packet_count ps) = j"
    "w_direct s = 0" "w_repeat s = k - j" "0 < k - j" "k - j < 128"
    and same: "run_same mem b j k"
    by (auto simp: writer_inv_def)
  have lj: "length (pixel_at mem b j) = b"
    using f(3) len by (rule pixel_at_length_le)
  have px: "take (j * b) mem @ concat (replicate (Suc (k - j)) (pixel_at mem b j)) = take (Suc k * b) mem"
    using f(3) same by (rule take_pixels_repeat)
  have step: "rle_write_step mem b s =
      s\<lparr>w_fp := w_fp s @ [of_nat (128 + (k - j))] @ pixel_at mem b j,
        w_from := k * b + b, w_repeat := 0, w_direct := 0, w_buf := k * b + b\<rparr>"
    using diff rep f
    by (simp add: rle_write_step_def Let_def memcmp_differs_pixels fwrite_from_one)
  show ?thesis
    unfolding step writer_inv_def using f lj px
    by simp
qed

lemma run_same_Suc:
  "j \<le> k \<Longrightarrow> run_same mem b j k \<Longrightarrow> pixel_at mem b k = pixel_at mem b (Suc k) \<Longrightarrow>
   run_same mem b j (Suc k)"
  unfolding run_same_def by (metis le_SucE le_refl)

lemma run_same_refl: "run_same mem b k k"
  unfolding run_same_def by (metis le_antisym)

lemma run_same_pair:
  "pixel_at mem b k = pixel_at mem b (Suc k) \<Longrightarrow> run_same mem b k (Suc k)"
  by (rule run_same_Suc [OF le_refl run_same_refl])

lemma writer_step_diff_direct:
  assumes inv: "writer_inv mem b k j ps s" and len: "(k + 2) * b \<le> length mem"
    and diff: "pixel_at mem b k \<noteq> pixel_at mem b (Suc k)" and rep: "w_repeat s = 0"
  shows "if Suc (k - j) = 128
         then writer_inv mem b (Suc k) (Suc k)
                (ps @ [Direct_packet 128 (fwrite_from mem (j * b) b 128)]) (rle_write_step mem b s)
         else writer_inv mem b (Suc k) j ps (rle_write_step mem b s)"
proof -
  from inv rep have f: "w_buf s = k * b" "w_from s = j * b" "j \<le> k"
    "w_fp s = concat (map packet_bytes ps)" "list_all (packet_ok b) ps"
    "concat (map packet_pixels ps) = take (j * b) mem" "sum_list (map packet_count ps) = j"
    "w_direct s = k - j" "k - j < 128"
    by (auto simp: writer_inv_def)
  show ?thesis
  proof (cases "Suc (k - j) = 128")
    case True
    then have jk: "j + 128 = Suc k" using f(3) by arith
    have "(j + 128) * b \<le> length mem"
      using len jk by (metis add_2_eq_Suc' add_leD1 le_SucI le_trans mult_le_mono1 le_refl Suc_eq_plus1 add_Suc_right)
    then have lp: "length (fwrite_from mem (j * b) b 128) = 128 * b"
      by (rule fwrite_from_length)
    have px: "take (j * b) mem @ fwrite_from mem (j * b) b 128 = take (Suc k * b) mem"
      using fwrite_from_take [of j b mem 128] jk by simp
    have step: "rle_write_step mem b s =
      s\<lparr>w_direct := 0, w_fp := w_fp s @ [127] @ fwrite_from mem (j * b) b 128,
        w_from := k * b + b, w_repeat := 0, w_buf := k * b + b\<rparr>"
      using diff rep f True
      by (simp add: rle_write_step_def Let_def memcmp_differs_pixels)
    show ?thesis
      unfolding step writer_inv_def using f lp px True
      by simp
  next
    case False
    have step: "rle_write_step mem b s = s\<lparr>w_direct := Suc (k - j), w_buf := k * b + b\<rparr>"
      using diff rep f False
      by (simp add: rle_write_step_def Let_def memcmp_differs_pixels)
    show ?thesis
      unfolding step writer_inv_def using f rep False
      by (simp add: Suc_diff_le)
  qed
qed

lemma writer_step_same_direct:
  assumes inv: "writer_inv mem b k j ps s" and len: "(k + 2) * b \<le> length mem"
    and same: "pixel_at mem b k = pixel_at mem b (Suc k)" and dir: "w_direct s \<noteq> 0"
  shows "writer_inv mem b (Suc k) k
           (ps @ [Direct_packet (k - j) (fwrite_from mem (j * b) b (k - j))])
           (rle_write_step mem b s)"
proof -
  from inv dir have f: "w_buf s = k * b" "w_from s = j * b" "j \<le> k"
    "w_fp s = concat (map packet_bytes ps)" "list_all (packet_ok b) ps"
    "concat (map packet_pixels ps) = take (j * b) mem" "sum_list (map packet_count ps) = j"
    "w_repeat s = 0" "w_direct s = k - j" "0 < k - j" "k - j < 128"
    by (auto simp: writer_inv_def)
  have jk: "j + (k - j) = k" using f(3) by simp
  have "k * b \<le> (k + 2) * b" by (intro mult_le_mono1) simp
  with len jk have "(j + (k - j)) * b \<le> length mem" by simp
  then have lp: "length (fwrite_from mem (j * b) b (k - j)) = (k - j) * b"
    by (rule fwrite_from_length)
  have px: "take (j * b) mem @ fwrite_from mem (j * b) b (k - j) = take (k * b) mem"
    using fwrite_from_take [of j b mem "k - j"] jk by simp
  have step: "rle_write_step mem b s =
      s\<lparr>w_fp := w_fp s @ [of_nat (k - j - 1)] @ fwrite_from mem (j * b) b (k - j),
        w_from := k * b, w_direct := 0, w_repeat := 1, w_buf := k * b + b\<rparr>"
    using same dir f
    by (simp add: rle_write_step_def Let_def memcmp_differs_pixels)
  show ?thesis
    unfolding step writer_inv_def using f lp px run_same_pair [OF same]
    by simp
qed

lemma writer_step_same_repeat:
  assumes inv: "writer_inv mem b k j ps s" and len: "(k + 2) * b \<le> length mem"
    and same: "pixel_at mem b k = pixel_at mem b (Suc k)" and dir: "w_direct s = 0"
  shows "if Suc (k - j) = 128
         then writer_inv mem b (Suc k) (Suc k)
                (ps @ [Repeat_packet 128 (pixel_at mem b j)]) (rle_write_step mem b s)
         else writer_inv mem b (Suc k) j ps (rle_write_step mem b s)"
proof -
  from inv dir have f: "w_buf s = k * b" "w_from s = j * b" "j \<le> k"
    "w_fp s = concat (map packet_bytes ps)" "list_all (packet_ok b) ps"
    "concat (map packet_pixels ps) = take (j * b) mem" "sum_list (map packet_count ps) = j"
    "w_repeat s = k - j" "k - j < 128"
    by (auto simp: writer_inv_def)
  from inv dir have "j = k \<or> run_same mem b j k"
    by (auto simp: writer_inv_def)
  then have rs: "run_same mem b j k" using run_same_refl by blast
  have rs': "run_same mem b j (Suc k)" using f(3) rs same by (rule run_same_Suc)
  show ?thesis
  proof (cases "Suc (k - j) = 128")
    case True
    have lj: "length (pixel_at mem b j) = b"
      using f(3) len by (rule pixel_at_length_le)
    have px: "take (j * b) mem @ concat (replicate (Suc (k - j)) (pixel_at mem b j)) = take (Suc k * b) mem"
      using f(3) rs by (rule take_pixels_repeat)
    have step: "rle_write_step mem b s =
      s\<lparr>w_repeat := 0, w_fp := w_fp s @ [255] @ pixel_at mem b j,
        w_from := k * b + b, w_direct := 0, w_buf := k * b + b\<rparr>"
      using same dir f True
      by (simp add: rle_write_step_def Let_def memcmp_differs_pixels fwrite_from_one)
    show ?thesis
      unfolding step writer_inv_def using f lj px True
      by simp
  next
    case False
    have step: "rle_write_step mem b s = s\<lparr>w_repeat := Suc (k - j), w_buf := k * b + b\<rparr>"
      using same dir f False
      by (simp add: rle_write_step_def Let_def memcmp_differs_pixels)
    show ?thesis
      unfolding step writer_inv_def using f dir False rs'
      by (simp add: Suc_diff_le)
  qed
qed

lemma writer_step:
  assumes inv: "writer_inv mem b k j ps s" and len: "(k + 2) * b \<le> length mem"
  shows "\<exists>j' ps'. writer_inv mem b (Suc k) j' ps' (rle_write_step mem b s)"
proof (cases "pixel_at mem b k = pixel_at mem b (Suc k)")
  case True
  show ?thesis
  proof (cases "w_direct s = 0")
    case True
    from writer_step_same_repeat [OF inv len \<open>pixel_at mem b k = pixel_at mem b (Suc k)\<close> True]
    show ?thesis by (metis (full_types))
  next
    case False
    from writer_step_same_direct [OF inv len True False] show ?thesis by blast
  qed
next
  case False
  show ?thesis
  proof (cases "w_repeat s = 0")
    case True
    from writer_step_diff_direct [OF inv len False True] show ?thesis by (metis (full_types))
  next
    case r: False
    from writer_step_diff_repeat [OF inv len False r] show ?thesis by blast
  qed
qed

lemma writer_loop:
  "writer_inv mem b k j ps s \<Longrightarrow> x = Suc k \<Longrightarrow> x \<le> wd \<Longrightarrow> length mem = wd * b \<Longrightarrow>
   \<exists>j' ps'. writer_inv mem b (wd - 1) j' ps' (rle_write_loop mem b wd x s)"
proof (induction mem b wd x s arbitrary: k j ps rule: rle_write_loop.induct)
  case (1 mem sz wd x s)
  show ?case
  proof (cases "x < wd")
    case True
    then have "(k + 2) * sz \<le> wd * sz"
      using "1.prems"(2) by (intro mult_le_mono1) simp
    then have "(k + 2) * sz \<le> length mem" using "1.prems"(4) by simp
    from writer_step [OF "1.prems"(1) this]
    obtain j' ps' where "writer_inv mem sz (Suc k) j' ps' (rle_write_step mem sz s)"
      by blast
    from "1.IH" [OF True this] True "1.prems"
    show ?thesis by (subst rle_write_loop.simps) simp
  next
    case False
    then have "wd - 1 = k" using "1.prems" by simp
    with False "1.prems"(1) show ?thesis
      by (subst rle_write_loop.simps) auto
  qed
qed

lemma writer_inv_init:
  "writer_inv mem b 0 0 [] \<lparr>w_repeat = 0, w_direct = 0, w_from = 0, w_buf = 0, w_fp = []\<rparr>"
  by (simp add: writer_inv_def)

lemma rle_write_packets_ex:
  assumes w: "1 \<le> wd" and len: "length mem = wd * b"
  shows "\<exists>ps. rle_write mem wd b = concat (map packet_bytes ps) \<and>
              list_all (packet_ok b) ps \<and>
              concat (map packet_pixels ps) = mem \<and>
              sum_list (map packet_count ps) = wd"
proof -
  define s where "s = rle_write_loop mem b wd 1
                        \<lparr>w_repeat = 0, w_direct = 0, w_from = 0, w_buf = 0, w_fp = []\<rparr>"
  define k where "k = wd - 1"
  have fin: "rle_write mem wd b =
     (if w_repeat s > 0
      then w_fp s @ [of_nat (128 + w_repeat s)] @ fwrite_from mem (w_from s) b 1
      else w_fp s @ [of_nat (w_direct s)] @ fwrite_from mem (w_from s) b (w_direct s + 1))"
    unfolding rle_write_def s_def Let_def by (rule refl)
  have kw: "Suc k = wd" using w by (simp add: k_def)
  obtain j ps where inv: "writer_inv mem b k j ps s"
    using writer_loop [OF writer_inv_init, of 1 wd mem b] w len
    unfolding s_def k_def by auto
  from inv have f: "w_buf s = k * b" "w_from s = j * b" "j \<le> k"
    "w_fp s = concat (map packet_bytes ps)" "list_all (packet_ok b) ps"
    "concat (map packet_pixels ps) = take (j * b) mem" "sum_list (map packet_count ps) = j"
    by (auto simp: writer_inv_def)
  have tk: "take (Suc k * b) mem = mem" using len kw by simp
  show ?thesis
  proof (cases "w_repeat s > 0")
    case True
    with inv have r: "w_repeat s = k - j" "k - j < 128" "run_same mem b j k"
      by (auto simp: writer_inv_def)
    have "(j + 1) * b \<le> Suc k * b" using f(3) by (intro mult_le_mono1) simp
    then have lj: "length (pixel_at mem b j) = b"
      using len kw by (intro pixel_at_length) simp
    have px: "take (j * b) mem @ concat (replicate (Suc (k - j)) (pixel_at mem b j)) = mem"
      using take_pixels_repeat [OF f(3) r(3)] tk by simp
    have out: "rle_write mem wd b =
        concat (map packet_bytes (ps @ [Repeat_packet (Suc (k - j)) (pixel_at mem b j)]))"
      using True r f by (simp add: fin fwrite_from_one)
    show ?thesis
      apply (rule exI [of _ "ps @ [Repeat_packet (Suc (k - j)) (pixel_at mem b j)]"])
      using out f r lj px kw by simp
  next
    case False
    with inv have d: "w_direct s = k - j" "k - j < 128"
      by (auto simp: writer_inv_def)
    have jk: "j + Suc (k - j) = Suc k" using f(3) by simp
    then have "(j + Suc (k - j)) * b \<le> length mem" using len kw by simp
    then have lp: "length (fwrite_from mem (j * b) b (Suc (k - j))) = Suc (k - j) * b"
      by (rule fwrite_from_length)
    have px: "take (j * b) mem @ fwrite_from mem (j * b) b (Suc (k - j)) = mem"
      using fwrite_from_take [of j b mem "Suc (k - j)"] jk tk by simp
    have out: "rle_write mem wd b =
        concat (map packet_bytes (ps @ [Direct_packet (Suc (k - j))
                                         (fwrite_from mem (j * b) b (Suc (k - j)))]))"
      using False d f by (simp add: fin)
    show ?thesis
      apply (rule exI [of _ "ps @ [Direct_packet (Suc (k - j))
                                         (fwrite_from mem (j * b) b (Suc (k - j)))]"])
      using out f d lp px kw by simp
  qed
qed

lemma split_packets_packet:
  assumes "packet_ok b p"
  shows "split_packets b (packet_bytes p @ rest) = map_option (Cons p) (split_packets b rest)"
proof (cases p)
  case (Repeat_packet n r)
  with assms have n: "1 \<le> n" "n \<le> 128" "length r = b" by simp_all
  then have "unat (of_nat (127 + n) :: byte) = 127 + n"
    by (simp add: unat_of_nat del: of_nat_add)
  with n Repeat_packet show ?thesis by (simp del: of_nat_add)
next
  case (Direct_packet n rs)
  with assms have n: "1 \<le> n" "n \<le> 128" "length rs = n * b" by simp_all
  then obtain m where m: "n = Suc m" "m < 128" by (cases n) auto
  then have "unat (of_nat m :: byte) = m"
    by (simp add: unat_of_nat)
  with n m Direct_packet show ?thesis by simp
qed

lemma split_packets_serialized:
  "list_all (packet_ok b) ps \<Longrightarrow> split_packets b (concat (map packet_bytes ps)) = Some ps"
  by (induction ps) (simp_all add: split_packets_packet del: packet_bytes.simps)

lemma store_bytes_nil [simp]: "store_bytes mem p [] = mem"
  by (simp add: store_bytes_def)

lemma store_bytes_length:
  "p + length bs \<le> length mem \<Longrightarrow> length (store_bytes mem p bs) = length mem"
  by (simp add: store_bytes_def)

lemma store_bytes_append:
  "p \<le> length mem \<Longrightarrow>
   store_bytes (store_bytes mem p xs) (p + length xs) ys = store_bytes mem p (xs @ ys)"
  by (simp add: store_bytes_def add_ac)

lemma store_bytes_all: "length bs = length mem \<Longrightarrow> store_bytes mem 0 bs = bs"
  by (simp add: store_bytes_def)

lemma rle_read_repeat_run:
  "r_repeat st = int c \<Longrightarrow> x + c \<le> wd \<Longrightarrow> buf \<le> length mem \<Longrightarrow>
   length (take sz (r_sample st)) = sz \<Longrightarrow>
   rle_read_loop wd sz x st fp mem buf =
   rle_read_loop wd sz (x + c) (st\<lparr>r_repeat := 0\<rparr>) fp
     (store_bytes mem buf (concat (replicate c (take sz (r_sample st))))) (buf + c * sz)"
proof (induction c arbitrary: x st mem buf)
  case 0
  then have "st\<lparr>r_repeat := 0\<rparr> = st" by simp
  then show ?case by simp
next
  case (Suc c)
  let ?r = "take sz (r_sample st)"
  let ?st = "st\<lparr>r_repeat := int c\<rparr>"
  have x: "x < wd" using Suc.prems(2) by simp
  have head: "rle_read_head sz st fp = (True, st, fp)"
    using Suc.prems(1) by (simp add: rle_read_head_def)
  have "rle_read_loop wd sz x st fp mem buf =
        rle_read_loop wd sz (x + 1) ?st fp (store_bytes mem buf ?r) (buf + sz)"
    using x head Suc.prems(1) by (subst rle_read_loop.simps) simp
  also have "\<dots> = rle_read_loop wd sz (x + 1 + c) (?st\<lparr>r_repeat := 0\<rparr>) fp
       (store_bytes (store_bytes mem buf ?r) (buf + sz)
          (concat (replicate c (take sz (r_sample ?st))))) (buf + sz + c * sz)"
    using Suc.prems by (intro Suc.IH) (simp_all add: store_bytes_def)
  also have "store_bytes (store_bytes mem buf ?r) (buf + sz)
          (concat (replicate c (take sz (r_sample ?st))))
        = store_bytes mem buf (concat (replicate (Suc c) ?r))"
    using store_bytes_append [OF Suc.prems(3), of ?r "concat (replicate c ?r)"] Suc.prems(4)
    by simp
  finally show ?case by (simp add: add_ac)
qed

lemma rle_read_direct_run:
  "r_repeat st = 0 \<Longrightarrow> r_direct st = int c \<Longrightarrow> x + c \<le> wd \<Longrightarrow> buf \<le> length mem \<Longrightarrow>
   1 \<le> sz \<Longrightarrow> length payload = c * sz \<Longrightarrow>
   rle_read_loop wd sz x st (payload @ rest) mem buf =
   rle_read_loop wd sz (x + c) (st\<lparr>r_direct := 0\<rparr>) rest
     (store_bytes mem buf payload) (buf + c * sz)"
proof (induction c arbitrary: x st mem buf payload)
  case 0
  then have "st\<lparr>r_direct := 0\<rparr> = st" by simp
  moreover have "payload = []" using "0.prems"(6) by simp
  ultimately show ?case by simp
next
  case (Suc c)
  let ?p = "take sz payload"
  let ?q = "drop sz payload"
  let ?st = "st\<lparr>r_direct := int c\<rparr>"
  have x: "x < wd" using Suc.prems(3) by simp
  have lp: "length ?p = sz" "length ?q = c * sz" using Suc.prems(6) by simp_all
  have head: "rle_read_head sz st (payload @ rest) = (True, st, payload @ rest)"
    using Suc.prems(2) by (simp add: rle_read_head_def)
  have fr: "fread1 sz (payload @ rest) = (?p, 1, ?q @ rest)"
    using Suc.prems(5,6) by (simp add: fread1_def)
  have "rle_read_loop wd sz x st (payload @ rest) mem buf =
        rle_read_loop wd sz (x + 1) ?st (?q @ rest) (store_bytes mem buf ?p) (buf + sz)"
    using x head fr Suc.prems(1,2) by (subst rle_read_loop.simps) simp
  also have "\<dots> = rle_read_loop wd sz (x + 1 + c) (?st\<lparr>r_direct := 0\<rparr>) rest
       (store_bytes (store_bytes mem buf ?p) (buf + sz) ?q) (buf + sz + c * sz)"
    using Suc.prems lp by (intro Suc.IH) (simp_all add: store_bytes_def)
  also have "store_bytes (store_bytes mem buf ?p) (buf + sz) ?q = store_bytes mem buf payload"
    using store_bytes_append [OF Suc.prems(4), of ?p ?q] lp by simp
  finally show ?case by (simp add: add_ac)
qed

lemma rle_read_repeat_head:
  assumes idle: "r_repeat st = 0" "r_direct st = 0" and b: "1 \<le> sz"
    and n: "1 \<le> n" "n \<le> 128" and r: "length r = sz" and x: "x < wd"
  shows "rle_read_loop wd sz x st (of_nat (127 + n) # r @ rest) mem buf =
         rle_read_loop wd sz x
           (st\<lparr>r_repeat := int n, r_sample := store_bytes (r_sample st) 0 r\<rparr>) rest mem buf"
proof -
  let ?st1 = "st\<lparr>r_repeat := int n, r_sample := store_bytes (r_sample st) 0 r\<rparr>"
  have u: "uint (of_nat (127 + n) :: byte) = 127 + int n"
    using n by (simp add: uint_nat unat_of_nat del: of_nat_add)
  have fr: "fread1 sz (r @ rest) = (r, 1, rest)"
    using b r by (simp add: fread1_def)
  have h1: "rle_read_head sz st (of_nat (127 + n) # r @ rest) = (True, ?st1, rest)"
    using idle u fr n by (simp add: rle_read_head_def del: of_nat_add)
  have h2: "rle_read_head sz ?st1 rest = (True, ?st1, rest)"
    using n by (simp add: rle_read_head_def)
  have "rle_read_loop wd sz x st (of_nat (127 + n) # r @ rest) mem buf =
        rle_read_loop wd sz (x + 1) (?st1\<lparr>r_repeat := int n - 1\<rparr>) rest
          (store_bytes mem buf (take sz (r_sample ?st1))) (buf + sz)"
    using x h1 n by (subst rle_read_loop.simps) (simp del: of_nat_add)
  moreover have "rle_read_loop wd sz x ?st1 rest mem buf =
        rle_read_loop wd sz (x + 1) (?st1\<lparr>r_repeat := int n - 1\<rparr>) rest
          (store_bytes mem buf (take sz (r_sample ?st1))) (buf + sz)"
    using x h2 n by (subst rle_read_loop.simps) simp
  ultimately show ?thesis by simp
qed

lemma rle_read_direct_head:
  assumes idle: "r_repeat st = 0" "r_direct st = 0"
    and n: "1 \<le> n" "n \<le> 128" and x: "x < wd"
  shows "rle_read_loop wd sz x st (of_nat (n - 1) # fp) mem buf =
         rle_read_loop wd sz x (st\<lparr>r_direct := int n\<rparr>) fp mem buf"
proof -
  let ?st1 = "st\<lparr>r_direct := int n\<rparr>"
  obtain m where m: "n = Suc m" "m < 128" using n by (cases n) auto
  have u: "uint (of_nat m :: byte) = int m"
    using m by (simp add: uint_nat unat_of_nat)
  have h1: "rle_read_head sz st (of_nat m # fp) = (True, ?st1, fp)"
    using idle u m by (simp add: rle_read_head_def)
  have h2: "rle_read_head sz ?st1 fp = (True, ?st1, fp)"
    using m by (simp add: rle_read_head_def)
  have "rle_read_loop wd sz x st (of_nat m # fp) mem buf =
        rle_read_loop wd sz x ?st1 fp mem buf"
    using x h1 h2
    by (subst rle_read_loop.simps, subst (2) rle_read_loop.simps) simp
  then show ?thesis using m by simp
qed

lemma rle_read_packet:
  assumes idle: "r_repeat st = 0" "r_direct st = 0" and smp: "sz \<le> length (r_sample st)"
    and b: "1 \<le> sz" and ok: "packet_ok sz p"
    and x: "x + packet_count p \<le> wd" and buf: "buf \<le> length mem"
  shows "\<exists>st'. rle_read_loop wd sz x st (packet_bytes p @ rest) mem buf =
               rle_read_loop wd sz (x + packet_count p) st' rest
                 (store_bytes mem buf (packet_pixels p)) (buf + packet_count p * sz) \<and>
             r_repeat st' = 0 \<and> r_direct st' = 0 \<and> length (r_sample st') = length (r_sample st)"
proof (cases p)
  case (Repeat_packet n r)
  with ok have n: "1 \<le> n" "n \<le> 128" and r: "length r = sz" by simp_all
  let ?st1 = "st\<lparr>r_repeat := int n, r_sample := store_bytes (r_sample st) 0 r\<rparr>"
  have tk: "take sz (r_sample ?st1) = r"
    using r by (simp add: store_bytes_def)
  have x': "x < wd" "x + n \<le> wd" using x n Repeat_packet by simp_all
  have "rle_read_loop wd sz x st (packet_bytes p @ rest) mem buf =
        rle_read_loop wd sz x ?st1 rest mem buf"
    using rle_read_repeat_head [OF idle b n r x'(1)] Repeat_packet by simp
  also have "\<dots> = rle_read_loop wd sz (x + n) (?st1\<lparr>r_repeat := 0\<rparr>) rest
     (store_bytes mem buf (concat (replicate n (take sz (r_sample ?st1))))) (buf + n * sz)"
    using x'(2) buf r tk by (intro rle_read_repeat_run) simp_all
  finally have "rle_read_loop wd sz x st (packet_bytes p @ rest) mem buf =
     rle_read_loop wd sz (x + packet_count p) (?st1\<lparr>r_repeat := 0\<rparr>) rest
       (store_bytes mem buf (packet_pixels p)) (buf + packet_count p * sz)"
    using tk Repeat_packet by simp
  moreover have "length (r_sample (?st1\<lparr>r_repeat := 0\<rparr>)) = length (r_sample st)"
    using r smp by (simp add: store_bytes_def)
  ultimately show ?thesis using idle by (intro exI [of _ "?st1\<lparr>r_repeat := 0\<rparr>"]) simp
next
  case (Direct_packet n rs)
  with ok have n: "1 \<le> n" "n \<le> 128" and rs: "length rs = n * sz" by simp_all
  let ?st1 = "st\<lparr>r_direct := int n\<rparr>"
  have x': "x < wd" "x + n \<le> wd" using x n Direct_packet by simp_all
  have "rle_read_loop wd sz x st (packet_bytes p @ rest) mem buf =
        rle_read_loop wd sz x ?st1 (rs @ rest) mem buf"
    using rle_read_direct_head [OF idle n x'(1), of sz "rs @ rest" mem buf] Direct_packet
    by (simp del: of_nat_diff)
  also have "\<dots> = rle_read_loop wd sz (x + n) (?st1\<lparr>r_direct := 0\<rparr>) rest
     (store_bytes mem buf rs) (buf + n * sz)"
    using x'(2) buf rs b idle by (intro rle_read_direct_run) simp_all
  finally have "rle_read_loop wd sz x st (packet_bytes p @ rest) mem buf =
     rle_read_loop wd sz (x + packet_count p) (?st1\<lparr>r_direct := 0\<rparr>) rest
       (store_bytes mem buf (packet_pixels p)) (buf + packet_count p * sz)"
    using Direct_packet by simp
  then show ?thesis using idle by (intro exI [of _ "?st1\<lparr>r_direct := 0\<rparr>"]) simp
qed

lemma packet_pixels_length:
  "packet_ok b p \<Longrightarrow> length (packet_pixels p) = packet_count p * b"
  by (cases p) (simp_all add: length_concat sum_list_replicate)

lemma rle_read_packets:
  "r_repeat st = 0 \<Longrightarrow> r_direct st = 0 \<Longrightarrow> sz \<le> length (r_sample st) \<Longrightarrow> 1 \<le> sz \<Longrightarrow>
   list_all (packet_ok sz) ps \<Longrightarrow> x + sum_list (map packet_count ps) \<le> wd \<Longrightarrow>
   buf + sum_list (map packet_count ps) * sz \<le> length mem \<Longrightarrow>
   \<exists>st'. rle_read_loop wd sz x st (concat (map packet_bytes ps) @ rest) mem buf =
           rle_read_loop wd sz (x + sum_list (map packet_count ps)) st' rest
             (store_bytes mem buf (concat (map packet_pixels ps)))
             (buf + sum_list (map packet_count ps) * sz) \<and>
         r_repeat st' = 0 \<and> r_direct st' = 0 \<and> length (r_sample st') = length (r_sample st)"
proof (induction ps arbitrary: x st mem buf)
  case Nil
  then show ?case by (intro exI [of _ st]) simp
next
  case (Cons p ps)
  let ?n = "packet_count p"
  let ?t = "sum_list (map packet_count ps)"
  let ?mem1 = "store_bytes mem buf (packet_pixels p)"
  have ok: "packet_ok sz p" "list_all (packet_ok sz) ps" using Cons.prems(5) by simp_all
  have lp: "length (packet_pixels p) = ?n * sz" using ok(1) by (rule packet_pixels_length)
  have bnd: "buf + ?n * sz + ?t * sz \<le> length mem"
    using Cons.prems(7) by (simp add: algebra_simps)
  then have buf: "buf \<le> length mem" "buf + length (packet_pixels p) \<le> length mem"
    using lp by simp_all
  have len1: "length ?mem1 = length mem" using buf(2) by (rule store_bytes_length)
  from rle_read_packet [OF Cons.prems(1,2,3,4) ok(1) _ buf(1), of x wd "concat (map packet_bytes ps) @ rest"]
    Cons.prems(6)
  obtain st1 where st1:
    "rle_read_loop wd sz x st (packet_bytes p @ concat (map packet_bytes ps) @ rest) mem buf =
     rle_read_loop wd sz (x + ?n) st1 (concat (map packet_bytes ps) @ rest) ?mem1 (buf + ?n * sz)"
    "r_repeat st1 = 0" "r_direct st1 = 0" "length (r_sample st1) = length (r_sample st)"
    by auto
  have "\<exists>st'. rle_read_loop wd sz (x + ?n) st1 (concat (map packet_bytes ps) @ rest) ?mem1 (buf + ?n * sz) =
           rle_read_loop wd sz (x + ?n + ?t) st' rest
             (store_bytes ?mem1 (buf + ?n * sz) (concat (map packet_pixels ps)))
             (buf + ?n * sz + ?t * sz) \<and>
         r_repeat st' = 0 \<and> r_direct st' = 0 \<and> length (r_sample st') = length (r_sample st1)"
    using st1(2,3,4) Cons.prems(3,4,6) ok(2) bnd len1
    by (intro Cons.IH) simp_all
  then obtain st2 where st2:
    "rle_read_loop wd sz (x + ?n) st1 (concat (map packet_bytes ps) @ rest) ?mem1 (buf + ?n * sz) =
           rle_read_loop wd sz (x + ?n + ?t) st2 rest
             (store_bytes ?mem1 (buf + ?n * sz) (concat (map packet_pixels ps)))
             (buf + ?n * sz + ?t * sz)"
    "r_repeat st2 = 0" "r_direct st2 = 0" "length (r_sample st2) = length (r_sample st1)"
    by blast
  have app: "store_bytes ?mem1 (buf + ?n * sz) (concat (map packet_pixels ps))
        = store_bytes mem buf (packet_pixels p @ concat (map packet_pixels ps))"
    using store_bytes_append [OF buf(1), of "packet_pixels p" "concat (map packet_pixels ps)"] lp
    by simp
  show ?case
    apply (rule exI [of _ st2])
    using st1 st2 app by (simp add: algebra_simps)
qed

lemma rle_read_loop_roundtrip:
  assumes w: "1 \<le> wd" and b: "1 \<le> sz" "sz \<le> length (r_sample st)"
    and row: "length row = wd * sz" and mem: "length mem = wd * sz"
    and idle: "r_repeat st = 0" "r_direct st = 0"
  shows "\<exists>st'. rle_read_loop wd sz 0 st (rle_write row wd sz @ rest) mem 0
               = (0, st', rest, row) \<and>
             r_repeat st' = 0 \<and> r_direct st' = 0 \<and> length (r_sample st') = length (r_sample st)"
proof -
  obtain ps where ps: "rle_write row wd sz = concat (map packet_bytes ps)"
    "list_all (packet_ok sz) ps" "concat (map packet_pixels ps) = row"
    "sum_list (map packet_count ps) = wd"
    using rle_write_packets_ex [OF w row] by blast
  from rle_read_packets [OF idle b(2) b(1) ps(2), of 0 wd 0 mem rest] ps(4) mem
  obtain st' where st': "rle_read_loop wd sz 0 st (concat (map packet_bytes ps) @ rest) mem 0 =
       rle_read_loop wd sz wd st' rest (store_bytes mem 0 row) (wd * sz)"
    "r_repeat st' = 0" "r_direct st' = 0" "length (r_sample st') = length (r_sample st)"
    using ps(3) by auto
  have "rle_read_loop wd sz wd st' rest (store_bytes mem 0 row) (wd * sz)
        = (0, st', rest, row)"
    using row mem by (subst rle_read_loop.simps) (simp add: store_bytes_all)
  with st' ps(1) show ?thesis by auto
qed

section \<open>Claims about the run-length codec\<close>

text \<open>
  Claim C1. For every row of fixed-size pixel records, of any width of at least 1 and any
  record size from 1 to 4 bytes, \<open>rle_read\<close> applied to the bytes that \<open>rle_write\<close> wrote
  for the row returns 0 and leaves exactly the row in the buffer, whatever the buffer held
  and whatever follows the row in the stream; the bytes that follow are left unread and
  both counters of the decoder are back at 0, so the rows of an image decode one after
  the other. All-same rows, all-distinct rows, mixed rows and rows of 127, 128, 129 or a
  multiple of 128 pixels are instances.
\<close>

theorem rle_read_rle_write:
  assumes "1 \<le> width info" and "1 \<le> bytes info" and "bytes info \<le> 4"
    and "length row = width info * bytes info"
    and "length buf = width info * bytes info"
    and "r_repeat st = 0" and "r_direct st = 0" and "length (r_sample st) = 4"
  shows "\<exists>st'. rle_read (rle_write row (width info) (bytes info) @ rest) buf info st
               = (0, st', rest, row) \<and>
             r_repeat st' = 0 \<and> r_direct st' = 0 \<and> length (r_sample st') = 4"
proof -
  have "bytes info \<le> length (r_sample st)" using assms(3,8) by simp
  from rle_read_loop_roundtrip [OF assms(1,2) this assms(4,5,6,7), of rest] assms(8)
  show ?thesis by (simp add: rle_read_def)
qed

theorem rle_read_rle_write_witness:
  "\<exists>st'. rle_read (rle_write [1, 1, 2, 2, 3, 3, 3, 3, 4, 4] 5 2 @ [9, 9]) (replicate 10 7)
            \<lparr>idLength = 0, colorMapType = 0, imageType = 2, imageCompression = 1,
             colorMapIndex = 0, colorMapLength = 0, colorMapSize = 0, xOrigin = 0, yOrigin = 0,
             width = 5, height = 1, bpp = 16, bytes = 2, alphaBits = 0, flipHoriz = 0,
             flipVert = 0\<rparr> rle_reader_init
          = (0, st', [9, 9], [1, 1, 2, 2, 3, 3, 3, 3, 4, 4]) \<and>
        r_repeat st' = 0 \<and> r_direct st' = 0 \<and> length (r_sample st') = 4"
  using rle_read_rle_write [of
      "\<lparr>idLength = 0, colorMapType = 0, imageType = 2, imageCompression = 1,
             colorMapIndex = 0, colorMapLength = 0, colorMapSize = 0, xOrigin = 0, yOrigin = 0,
             width = 5, height = 1, bpp = 16, bytes = 2, alphaBits = 0, flipHoriz = 0,
             flipVert = 0\<rparr>"
      "[1, 1, 2, 2, 3, 3, 3, 3, 4, 4]" "replicate 10 7" rle_reader_init "[9, 9]"]
  by (simp add: rle_reader_init_def)

text \<open>
  Claim C8. For every row that \<open>rle_write\<close> encodes, of any width of at least 1 and any
  record size, the output is a sequence of whole packets: it splits into packets with no
  byte left over, every packet has a declared count between 1 and 128, a repeat packet is
  its control byte and one whole record, a direct packet of count n is its control byte
  and n whole records, and the counts add up to the width.
\<close>

theorem rle_write_packets:
  assumes "1 \<le> wd" and "length row = wd * sz"
  shows "\<exists>ps. split_packets sz (rle_write row wd sz) = Some ps \<and>
              (\<forall>p \<in> set ps. 1 \<le> packet_count p \<and> packet_count p \<le> 128 \<and> packet_ok sz p) \<and>
              sum_list (map packet_count ps) = wd \<and>
              concat (map packet_pixels ps) = row"
proof -
  obtain ps where ps: "rle_write row wd sz = concat (map packet_bytes ps)"
    "list_all (packet_ok sz) ps" "concat (map packet_pixels ps) = row"
    "sum_list (map packet_count ps) = wd"
    using rle_write_packets_ex [OF assms] by blast
  have "split_packets sz (rle_write row wd sz) = Some ps"
    using split_packets_serialized [OF ps(2)] ps(1) by simp
  moreover have "\<forall>p \<in> set ps. 1 \<le> packet_count p \<and> packet_count p \<le> 128 \<and> packet_ok sz p"
  proof
    fix p assume "p \<in> set ps"
    with ps(2) have "packet_ok sz p" by (simp add: list_all_iff)
    then show "1 \<le> packet_count p \<and> packet_count p \<le> 128 \<and> packet_ok sz p"
      by (cases p) simp_all
  qed
  ultimately show ?thesis using ps(3,4) by blast
qed

theorem rle_write_packets_witness:
  "\<exists>ps. split_packets 2 (rle_write [1, 1, 2, 2, 3, 3, 3, 3, 4, 4] 5 2) = Some ps \<and>
        (\<forall>p \<in> set ps. 1 \<le> packet_count p \<and> packet_count p \<le> 128 \<and> packet_ok 2 p) \<and>
        sum_list (map packet_count ps) = 5 \<and>
        concat (map packet_pixels ps) = [1, 1, 2, 2, 3, 3, 3, 3, 4, 4]"
  using rle_write_packets [of 5 "[1, 1, 2, 2, 3, 3, 3, 3, 4, 4]" 2]
  by simp

section \<open>The bit spread of \<open>upsample\<close>\<close>

lemma byte_bit_eqI:
  fixes a b :: byte
  assumes "bit a 0 = bit b 0" "bit a 1 = bit b 1" "bit a 2 = bit b 2" "bit a 3 = bit b 3"
    "bit a 4 = bit b 4" "bit a 5 = bit b 5" "bit a 6 = bit b 6" "bit a 7 = bit b 7"
  shows "a = b"
proof (rule bit_word_eqI)
  fix n assume "n < LENGTH(8)"
  then have "n \<in> {0, 1, 2, 3, 4, 5, 6, 7}"
    by simp arith
  with assms show "bit a n \<longleftrightarrow> bit b n" by auto
qed

lemma byte_bit_high: "8 \<le> n \<Longrightarrow> \<not> bit (w :: byte) n"
  by (auto dest: bit_imp_le_length)

lemma bit_times2: "bit (w * 2 :: byte) n \<longleftrightarrow> bit w (n - 1) \<and> 0 < n \<and> n < 8"
  using bit_double_iff [of w n] by (auto simp: mult.commute possible_bit_word)

lemma r1: "(push_bit 1 s1 AND 0xf8 :: byte) = push_bit 3 (take_bit 5 (drop_bit 2 s1))"
  by (rule byte_bit_eqI) (simp_all add: bit_simps byte_bit_high bit_times2)

lemma b1: "(push_bit 3 s0 AND 0xf8 :: byte) = push_bit 3 (take_bit 5 s0)"
  by (rule byte_bit_eqI) (simp_all add: bit_simps byte_bit_high bit_times2)

lemma g1a: "drop_bit 2 (s0 AND 0xe0) = push_bit 3 (drop_bit 5 (s0 :: byte))"
  by (rule byte_bit_eqI) (simp_all add: bit_simps byte_bit_high bit_times2)

lemma g1b: "push_bit 6 (s1 AND 0x03) = push_bit 6 (take_bit 2 (s1 :: byte))"
  by (rule byte_bit_eqI) (simp_all add: bit_simps byte_bit_high bit_times2)


lemma spread_list:
  "list_all (\<lambda>v. unat (push_bit 3 (of_nat v :: byte) + drop_bit 5 (push_bit 3 (of_nat v :: byte))) = spread5 v) [0..<32]"
  by code_simp

lemma spread_word:
  fixes c :: byte
  assumes "unat c < 32"
  shows "unat (push_bit 3 c + drop_bit 5 (push_bit 3 c)) = spread5 (unat c)"
proof -
  have "unat c \<in> set [0..<32]" using assms by simp
  with spread_list have "unat (push_bit 3 (of_nat (unat c) :: byte)
        + drop_bit 5 (push_bit 3 (of_nat (unat c) :: byte))) = spread5 (unat c)"
    unfolding list_all_iff by (rule bspec)
  then show ?thesis by simp
qed

lemma chan10: "a < 256 \<Longrightarrow> (a + 256 * b) div 2 ^ 10 mod 32 = b div 4 mod (32::nat)"
proof -
  assume a: "a < 256"
  have "(a + 256 * b) div (256 * 4) = (a + 256 * b) div 256 div 4"
    by (rule div_mult2_eq)
  also have "(a + 256 * b) div 256 = b" using a by simp
  finally show ?thesis by simp
qed

lemma chan5: "a < 256 \<Longrightarrow> (a + 256 * b) div 2 ^ 5 mod 32 = a div 32 + 8 * (b mod (4::nat))"
proof -
  assume a: "a < 256"
  have "a + 256 * b = a + (8 * b) * 32" by simp
  then have "(a + 256 * b) div 32 = a div 32 + 8 * b"
    by (simp only: div_mult_self3)
  moreover have "8 * b = 8 * (b mod 4) + 32 * (b div 4)"
    using div_mult_mod_eq [of b 4] by arith
  moreover have "a div 32 + 8 * (b mod 4) < 32"
  proof -
    have "a div 32 < 8" using a by simp
    moreover have "b mod 4 < 4" by simp
    ultimately show ?thesis by linarith
  qed
  ultimately have "(a + 256 * b) div 32 mod 32 = a div 32 + 8 * (b mod 4)"
    by (metis (no_types, opaque_lifting) add.assoc mod_less mod_mult_self2)
  then show ?thesis by simp
qed

lemma chan0: "(a + 256 * b) div 2 ^ 0 mod 32 = a mod (32::nat)"
proof -
  have "a + 256 * b = a + (8 * b) * 32" by simp
  then show ?thesis by (simp only: power_0 div_by_1 mod_mult_self1)
qed

lemma red_val: "unat (take_bit 5 (drop_bit 2 (s1::byte))) = unat s1 div 4 mod 32"
  by (simp add: take_bit_eq_mod drop_bit_eq_div unat_div unat_mod)

lemma blue_val: "unat (take_bit 5 (s0::byte)) = unat s0 mod 32"
  by (simp add: take_bit_eq_mod unat_mod)

lemma green_val:
  "unat (drop_bit 5 (s0::byte) + push_bit 3 (take_bit 2 (s1::byte))) = unat s0 div 32 + 8 * (unat s1 mod 4)"
proof -
  have a: "unat (drop_bit 5 s0) = unat s0 div 32"
    by (simp add: drop_bit_eq_div unat_div)
  have "unat s0 < 256" using unsigned_less [of s0, where 'a = nat] by simp
  then have a': "unat s0 div 32 < 8" by simp
  have "unat (take_bit 2 s1) = unat s1 mod 4"
    by (simp add: take_bit_eq_mod unat_mod)
  moreover have "unat (take_bit 2 s1) * unat (8 :: byte) < 2 ^ LENGTH(8)"
    using calculation by simp
  ultimately have b: "unat (push_bit 3 (take_bit 2 s1)) = 8 * (unat s1 mod 4)"
    using unat_mult_lem [of "take_bit 2 s1" "8 :: byte"] by (simp add: push_bit_eq_mult)
  have "unat (drop_bit 5 s0) + unat (push_bit 3 (take_bit 2 s1)) < 2 ^ LENGTH(8)"
    using a a' b by simp
  then show ?thesis using a b unat_add_lem [of "drop_bit 5 s0" "push_bit 3 (take_bit 2 s1)"] by simp
qed


lemma green_word:
  "drop_bit 2 (s0 AND 0xe0) + push_bit 6 (s1 AND 0x03)
   = push_bit 3 (drop_bit 5 (s0::byte) + push_bit 3 (take_bit 2 (s1::byte)))"
  unfolding g1a g1b by (simp add: push_bit_add push_bit_eq_mult)

lemma upsample_pixel_channels:
  "map unat (take 3 (upsample_pixel s0 s1 alpha))
     = [spread5 (channel5 (pixel16 s0 s1) 10), spread5 (channel5 (pixel16 s0 s1) 5),
        spread5 (channel5 (pixel16 s0 s1) 0)]"
proof -
  have s0: "unat s0 < 256" using unsigned_less [of s0, where 'a = nat] by simp
  have s1: "unat s1 < 256" using unsigned_less [of s1, where 'a = nat] by simp
  let ?r = "take_bit 5 (drop_bit 2 s1)"
  let ?g = "drop_bit 5 s0 + push_bit 3 (take_bit 2 s1)"
  let ?b = "take_bit 5 s0"
  have r: "unat ?r = channel5 (pixel16 s0 s1) 10"
    unfolding channel5_def pixel16_def chan10 [OF s0] by (rule red_val)
  have g: "unat ?g = channel5 (pixel16 s0 s1) 5"
    unfolding channel5_def pixel16_def chan5 [OF s0] by (rule green_val)
  have b: "unat ?b = channel5 (pixel16 s0 s1) 0"
    unfolding channel5_def pixel16_def chan0 by (rule blue_val)
  have lt: "unat ?r < 32" "unat ?g < 32" "unat ?b < 32"
    unfolding r g b channel5_def by simp_all
  have "take 3 (upsample_pixel s0 s1 alpha) =
       [push_bit 3 ?r + drop_bit 5 (push_bit 3 ?r), push_bit 3 ?g + drop_bit 5 (push_bit 3 ?g),
        push_bit 3 ?b + drop_bit 5 (push_bit 3 ?b)]"
    by (simp only: upsample_pixel_def Let_def r1 b1 green_word) simp
  then show ?thesis
    using spread_word [OF lt(1)] spread_word [OF lt(2)] spread_word [OF lt(3)] r g b
    by (simp only: list.map)
qed

lemma upsample_from_rows:
  "p + 2 * n \<le> length src \<Longrightarrow>
   upsample_from src p n 2 alpha =
     Some (concat (map (\<lambda>x. upsample_pixel (src ! (p + 2 * x)) (src ! (p + 2 * x + 1)) alpha) [0..<n]))"
proof (induction n arbitrary: p)
  case 0
  show ?case by simp
next
  case (Suc n)
  have pk: "peek src p = Some (src ! p)" "peek src (p + 1) = Some (src ! (p + 1))"
    using Suc.prems by (simp_all add: peek_def)
  have ih: "upsample_from src (p + 2) n 2 alpha =
     Some (concat (map (\<lambda>x. upsample_pixel (src ! (p + 2 + 2 * x)) (src ! (p + 2 + 2 * x + 1)) alpha) [0..<n]))"
    using Suc.prems by (intro Suc.IH) simp
  have "map (\<lambda>x. upsample_pixel (src ! (p + 2 * x)) (src ! (p + 2 * x + 1)) alpha) [0..<Suc n]
        = upsample_pixel (src ! p) (src ! (p + 1)) alpha
          # map (\<lambda>x. upsample_pixel (src ! (p + 2 + 2 * x)) (src ! (p + 2 + 2 * x + 1)) alpha) [0..<n]"
    by (simp add: map_upt_Suc del: upt_Suc)
  then show ?case using pk ih by (simp del: upt_Suc)
qed

lemma spread5_mono: "v \<le> w \<Longrightarrow> spread5 v \<le> spread5 w"
  unfolding spread5_def by (intro add_mono mult_le_mono1 div_le_mono)

lemma channel5_pixel:
  assumes "r \<le> 31" "g \<le> 31" "b \<le> 31"
  shows "channel5 (pixel16 (of_nat (32 * (g mod 8) + b)) (of_nat (4 * r + g div 8))) 10 = r \<and>
         channel5 (pixel16 (of_nat (32 * (g mod 8) + b)) (of_nat (4 * r + g div 8))) 5 = g \<and>
         channel5 (pixel16 (of_nat (32 * (g mod 8) + b)) (of_nat (4 * r + g div 8))) 0 = b"
proof -
  have g8: "g mod 8 < 8" "g div 8 < 4" using assms(2) by simp_all
  have lo: "32 * (g mod 8) + b < 256" using g8(1) assms(3) by linarith
  have hi: "4 * r + g div 8 < 256" using g8(2) assms(1) by linarith
  have u0: "unat (of_nat (32 * (g mod 8) + b) :: byte) = 32 * (g mod 8) + b"
    using lo by (simp add: unat_of_nat del: of_nat_add of_nat_mult)
  have u1: "unat (of_nat (4 * r + g div 8) :: byte) = 4 * r + g div 8"
    using hi by (simp add: unat_of_nat del: of_nat_add of_nat_mult)
  have "(4 * r + g div 8) div 4 mod 32 = r" using g8(2) assms(1) by simp
  moreover have "(32 * (g mod 8) + b) div 32 + 8 * ((4 * r + g div 8) mod 4) = g"
    using g8 assms(3) by simp
  moreover have "(32 * (g mod 8) + b) mod 32 = b" using assms(3) by simp
  ultimately show ?thesis
    unfolding channel5_def pixel16_def u0 u1 chan10 [OF lo] chan5 [OF lo] chan0
    by simp
qed

section \<open>Claim about \<open>upsample\<close>\<close>

text \<open>
  Claim C9. For every pixel, the red, green and blue bytes that \<open>upsample\<close> stores are
  the bit spread of the 5-bit channel values of the 16-bit pixel: the value in the top
  five bits plus its top three bits in the low three. For every channel value from 0 to
  31 the result lies between 0 and 255, it does not decrease when the value grows, 0 gives
  0 and 31 gives 255; every triple of channel values is the channels of some pixel, and
  on a row of \<open>wd\<close> records of 2 bytes \<open>upsample\<close> converts pixel after pixel.
\<close>

theorem upsample_spread:
  "map unat (take 3 (upsample_pixel s0 s1 alpha))
     = [spread5 (channel5 (pixel16 s0 s1) 10), spread5 (channel5 (pixel16 s0 s1) 5),
        spread5 (channel5 (pixel16 s0 s1) 0)] \<and>
   channel5 (pixel16 s0 s1) k \<le> 31 \<and>
   (r \<le> 31 \<and> g \<le> 31 \<and> b \<le> 31 \<longrightarrow>
      (\<exists>t0 t1. channel5 (pixel16 t0 t1) 10 = r \<and> channel5 (pixel16 t0 t1) 5 = g \<and>
               channel5 (pixel16 t0 t1) 0 = b)) \<and>
   (v \<le> w \<and> w \<le> 31 \<longrightarrow> spread5 v \<le> spread5 w \<and> spread5 w \<le> 255) \<and>
   spread5 0 = 0 \<and> spread5 31 = 255 \<and>
   (length src = wd * 2 \<longrightarrow>
      upsample src wd 2 alpha =
        Some (concat (map (\<lambda>x. upsample_pixel (src ! (2 * x)) (src ! (2 * x + 1)) alpha) [0..<wd])))"
proof -
  have "channel5 (pixel16 s0 s1) k \<le> 31"
    unfolding channel5_def using mod_less_divisor [of 32 "pixel16 s0 s1 div 2 ^ k"] by simp
  moreover have "v \<le> w \<and> w \<le> 31 \<longrightarrow> spread5 v \<le> spread5 w \<and> spread5 w \<le> 255"
  proof
    assume a: "v \<le> w \<and> w \<le> 31"
    then have "spread5 w \<le> spread5 31" by (intro spread5_mono) simp
    moreover have "spread5 31 = 255" by (simp add: spread5_def)
    ultimately show "spread5 v \<le> spread5 w \<and> spread5 w \<le> 255"
      using a by (simp add: spread5_mono)
  qed
  moreover have "length src = wd * 2 \<longrightarrow>
      upsample src wd 2 alpha =
        Some (concat (map (\<lambda>x. upsample_pixel (src ! (2 * x)) (src ! (2 * x + 1)) alpha) [0..<wd]))"
    using upsample_from_rows [of 0 wd src alpha] by (simp add: upsample_def)
  moreover have "r \<le> 31 \<and> g \<le> 31 \<and> b \<le> 31 \<longrightarrow>
      (\<exists>t0 t1. channel5 (pixel16 t0 t1) 10 = r \<and> channel5 (pixel16 t0 t1) 5 = g \<and>
               channel5 (pixel16 t0 t1) 0 = b)"
    using channel5_pixel [of r g b] by blast
  ultimately show ?thesis
    using upsample_pixel_channels [of s0 s1 alpha] by (simp add: spread5_def)
qed

theorem upsample_spread_witness:
  "map unat (take 3 (upsample_pixel 0xff 0x7f 0)) = [255, 255, 255] \<and>
   map unat (take 3 (upsample_pixel 0x1f 0 0)) = [0, 0, 255] \<and>
   spread5 3 \<le> spread5 17 \<and> spread5 17 \<le> 255 \<and>
   upsample [0xff, 0x7f, 0x1f, 0] 2 2 0 = Some [255, 255, 255, 0, 0, 255]"
proof -
  have c: "channel5 (pixel16 0xff 0x7f) 10 = 31" "channel5 (pixel16 0xff 0x7f) 5 = 31"
    "channel5 (pixel16 0xff 0x7f) 0 = 31" "channel5 (pixel16 0x1f 0) 10 = 0"
    "channel5 (pixel16 0x1f 0) 5 = 0" "channel5 (pixel16 0x1f 0) 0 = 31"
    by (simp_all add: channel5_def pixel16_def)
  have u: "upsample_pixel 0xff 0x7f 0 = [255, 255, 255]" "upsample_pixel 0x1f 0 0 = [0, 0, 255]"
    by (simp_all add: upsample_pixel_def)
  show ?thesis
    using upsample_spread [of "0xff" "0x7f" 0 0 0 0 0 3 17 "[0xff, 0x7f, 0x1f, 0]" 2]
      upsample_spread [of "0x1f" 0 0 0 0 0 0 3 17 "[]" 0] c u
    by (simp add: spread5_def upt_rec [of _ "numeral _"])
qed

section \<open>Header validation\<close>

lemma fix_alpha_bits_fields:
  "imageType (fix_alpha_bits info) = imageType info"
  "bpp (fix_alpha_bits info) = bpp info"
  "bytes (fix_alpha_bits info) = bytes info"
  "colorMapSize (fix_alpha_bits info) = colorMapSize info"
  "colorMapIndex (fix_alpha_bits info) = colorMapIndex info"
  "colorMapLength (fix_alpha_bits info) = colorMapLength info"
  by (simp_all add: fix_alpha_bits_def Let_def)

lemma header_info_type: "imageType (header_info h) \<le> 3"
  by (simp add: header_info_def)

lemma header_info_bytes: "bytes (header_info h) = (bpp (header_info h) + 7) div 8"
  by (simp add: header_info_def)

lemma check_sub_format_table:
  assumes "bytes info = (bpp info + 7) div 8"
  shows "check_sub_format info =
           (if accepted_sub_format (imageType info) (bpp info) (alphaBits info) then None
            else if imageType info = TGA_TYPE_MAPPED \<or> imageType info = TGA_TYPE_COLOR \<or>
                    imageType info = TGA_TYPE_GRAY
            then Some Unhandled_sub_format
            else Some Unknown_image_type)"
proof -
  consider (mapped) "imageType info = 1" | (color) "imageType info = 2"
    | (gray) "imageType info = 3" | (other) "imageType info \<noteq> 1" "imageType info \<noteq> 2" "imageType info \<noteq> 3"
    by blast
  then show ?thesis
  proof cases
    case mapped
    then show ?thesis using assms
      by (auto simp add: check_sub_format_def accepted_sub_format_def)
  next
    case color
    then show ?thesis using assms
      by (auto simp add: check_sub_format_def accepted_sub_format_def)
  next
    case gray
    then show ?thesis using assms
      by (auto simp add: check_sub_format_def accepted_sub_format_def)
  next
    case other
    then show ?thesis
      by (simp add: check_sub_format_def accepted_sub_format_def)
  qed
qed

section \<open>Claim about header validation\<close>

text \<open>
  Claim C5. After the two corrections of the alpha bits, the validation of the header
  accepts exactly the combinations of kind, bits per pixel and alpha bits of the table:
  for every header it accepts if and only if the combination is in the table, every
  combination outside it with one of the three kinds is refused as an unhandled
  sub-format, and two headers whose corrected kind, bits per pixel and alpha bits agree
  are both accepted or both refused, with the same message.
\<close>

theorem sub_format_table:
  assumes "info = fix_alpha_bits (header_info h)" and "info' = fix_alpha_bits (header_info h')"
  shows "(check_sub_format info = None \<longleftrightarrow>
            accepted_sub_format (imageType info) (bpp info) (alphaBits info)) \<and>
         (imageType info \<noteq> 0 \<and> \<not> accepted_sub_format (imageType info) (bpp info) (alphaBits info)
            \<longrightarrow> check_sub_format info = Some Unhandled_sub_format) \<and>
         (imageType info = imageType info' \<and> bpp info = bpp info' \<and> alphaBits info = alphaBits info'
            \<longrightarrow> check_sub_format info = check_sub_format info')"
proof -
  have b: "bytes info = (bpp info + 7) div 8" "bytes info' = (bpp info' + 7) div 8"
    using assms by (simp_all add: fix_alpha_bits_fields header_info_bytes)
  have t: "imageType info \<le> 3"
    using assms(1) header_info_type [of h] by (simp add: fix_alpha_bits_fields)
  then have "imageType info = 0 \<or> imageType info = 1 \<or> imageType info = 2 \<or> imageType info = 3"
    by arith
  then show ?thesis
    unfolding check_sub_format_table [OF b(1)] check_sub_format_table [OF b(2)]
    by auto
qed

theorem sub_format_table_witness:
  "check_sub_format (fix_alpha_bits (header_info [0, 0, 3, 0, 0, 0, 0, 0, 0, 0, 0, 0, 2, 0, 2, 0, 16, 0x20]))
     = None \<and>
   check_sub_format (fix_alpha_bits (header_info [0, 0, 2, 0, 0, 0, 0, 0, 0, 0, 0, 0, 2, 0, 2, 0, 24, 0x23]))
     = Some Unhandled_sub_format"
proof -
  let ?ok = "fix_alpha_bits (header_info [0, 0, 3, 0, 0, 0, 0, 0, 0, 0, 0, 0, 2, 0, 2, 0, 16, 0x20])"
  let ?bad = "fix_alpha_bits (header_info [0, 0, 2, 0, 0, 0, 0, 0, 0, 0, 0, 0, 2, 0, 2, 0, 24, 0x23])"
  have ok: "imageType ?ok = 3" "bpp ?ok = 16" "alphaBits ?ok = 8"
    by (simp_all add: fix_alpha_bits_def header_info_def Let_def)
  have bad: "imageType ?bad = 2" "bpp ?bad = 24" "alphaBits ?bad = 3"
    by (simp_all add: fix_alpha_bits_def header_info_def Let_def)
  from sub_format_table [OF refl refl, of "[0, 0, 3, 0, 0, 0, 0, 0, 0, 0, 0, 0, 2, 0, 2, 0, 16, 0x20]"]
  have "check_sub_format ?ok = None"
    unfolding ok by (simp add: accepted_sub_format_def)
  moreover
  from sub_format_table [OF refl refl, of "[0, 0, 2, 0, 0, 0, 0, 0, 0, 0, 0, 0, 2, 0, 2, 0, 24, 0x23]"]
  have "check_sub_format ?bad = Some Unhandled_sub_format"
    unfolding bad by (simp add: accepted_sub_format_def)
  ultimately show ?thesis by simp
qed

section \<open>The types of the image that \<open>ReadImage\<close> returns\<close>






section \<open>Claim about the promotion of indexed images\<close>



section \<open>Claim about the footer probe\<close>

lemma footer_probe_cases:
  "footer_probe file =
     (if has_signature file \<and> extension_offset file \<noteq> 0 \<and>
         length file < extension_offset file + 495
      then Some Cannot_read_extension else None)"
proof (cases "26 \<le> length file")
  case True
  have fr: "fread1 26 (drop (length file - 26) file) = (trailer file, 1, [])"
    using True by (simp add: fread1_def trailer_def)
  have rd: "(case fread1 495 (drop off file) of
               (extension, m, rest1) \<Rightarrow> if m \<noteq> Suc 0 then Some Cannot_read_extension else None)
            = (if length file < off + 495 then Some Cannot_read_extension else None)" for off
    by (auto simp add: fread1_def)
  show ?thesis
    using True unfolding footer_probe_def fr
    by (simp add: rd has_signature_def extension_offset_def Let_def)
next
  case False
  then show ?thesis by (simp add: footer_probe_def has_signature_def)
qed

text \<open>
  Claim C3 fails as stated: a failure to read the extension area makes \<open>load_image\<close> give
  up, although the header at offset 0 is that of a loadable version 1 file.
\<close>

theorem footer_probe_fatal_counterexample:
  "load_image plain_env short_extension_file = Stopped Cannot_read_extension \<and>
   load_from_header plain_env short_extension_file
     = Returned \<lparr>img_width = 1, img_height = 1, img_base_type = GIMP_GRAY, img_colormap = None,
                  layer_type = GIMP_GRAY_IMAGE, layer_pixels = [7]\<rparr>"
proof -
  have "footer_probe short_extension_file = Some Cannot_read_extension"
    by (simp add: footer_probe_cases has_signature_def extension_offset_def trailer_def
        short_extension_file_def magic_def)
  then have "load_image plain_env short_extension_file = Stopped Cannot_read_extension"
    by (simp add: load_image_def)
  moreover have "load_from_header plain_env short_extension_file
     = Returned \<lparr>img_width = 1, img_height = 1, img_base_type = GIMP_GRAY, img_colormap = None,
                  layer_type = GIMP_GRAY_IMAGE, layer_pixels = [7]\<rparr>"
    by code_simp
  ultimately show ?thesis by simp
qed

text \<open>
  Claim C3, amended. The probe of the footer stops the loading in one case only: the
  last 26 bytes of the file end in the signature, the extension offset in them is not 0,
  and fewer than 495 bytes of the file follow that offset; \<open>load_image\<close> then gives up
  with \<open>Cannot read extension\<close>. In every other case (a file shorter than 26 bytes, no
  signature, an offset of 0, or a readable extension area) the probe has no effect:
  \<open>load_image\<close> goes back to offset 0 and reads the 18 bytes of the header as for a
  version 1 file, and the message \<open>Cannot read footer\<close> is never given.
\<close>

theorem footer_probe_result:
  "load_image env file =
     (if has_signature file \<and> extension_offset file \<noteq> 0 \<and>
         length file < extension_offset file + 495
      then Stopped Cannot_read_extension
      else load_from_header env file) \<and>
   footer_probe file \<noteq> Some Cannot_read_footer \<and>
   (length file < 26 \<longrightarrow> load_image env file = load_from_header env file) \<and>
   (length file < 18 \<longrightarrow> load_image env file = Stopped Cannot_read_header)"
proof -
  have "length file < 26 \<longrightarrow> \<not> has_signature file" by (simp add: has_signature_def)
  moreover have "length file < 18 \<longrightarrow> load_from_header env file = Stopped Cannot_read_header"
    by (simp add: load_from_header_def fread1_def)
  ultimately show ?thesis
    by (auto simp add: load_image_def footer_probe_cases)
qed

theorem footer_probe_result_witness:
  "load_image plain_env short_extension_file = Stopped Cannot_read_extension \<and>
   load_image plain_env [0, 0, 3, 0, 0, 0, 0, 0, 0, 0, 0, 0, 1, 0, 1, 0, 8, 0x20, 7]
     = load_from_header plain_env [0, 0, 3, 0, 0, 0, 0, 0, 0, 0, 0, 0, 1, 0, 1, 0, 8, 0x20, 7] \<and>
   load_image plain_env [0, 0, 3] = Stopped Cannot_read_header"
proof -
  have s: "has_signature short_extension_file" "extension_offset short_extension_file = 1"
    "length short_extension_file = 45"
    by (simp_all add: has_signature_def extension_offset_def trailer_def short_extension_file_def
        magic_def)
  from footer_probe_result [of plain_env short_extension_file] s
  have 1: "load_image plain_env short_extension_file = Stopped Cannot_read_extension"
    by simp
  from footer_probe_result [of plain_env "[0, 0, 3, 0, 0, 0, 0, 0, 0, 0, 0, 0, 1, 0, 1, 0, 8, 0x20, 7]"]
  have "length [0, 0, 3, 0, 0, 0, 0, 0, 0, 0, 0, 0, 1, 0, 1, 0, 8, 0x20, 7 :: byte] < 26 \<longrightarrow>
        load_image plain_env [0, 0, 3, 0, 0, 0, 0, 0, 0, 0, 0, 0, 1, 0, 1, 0, 8, 0x20, 7]
     = load_from_header plain_env [0, 0, 3, 0, 0, 0, 0, 0, 0, 0, 0, 0, 1, 0, 1, 0, 8, 0x20, 7]"
    by blast
  then have 2: "load_image plain_env [0, 0, 3, 0, 0, 0, 0, 0, 0, 0, 0, 0, 1, 0, 1, 0, 8, 0x20, 7]
     = load_from_header plain_env [0, 0, 3, 0, 0, 0, 0, 0, 0, 0, 0, 0, 1, 0, 1, 0, 8, 0x20, 7]"
    by simp
  from footer_probe_result [of plain_env "[0, 0, 3]"]
  have "length [0, 0, 3 :: byte] < 18 \<longrightarrow> load_image plain_env [0, 0, 3] = Stopped Cannot_read_header"
    by blast
  then have 3: "load_image plain_env [0, 0, 3] = Stopped Cannot_read_header"
    by simp
  from 1 2 3 show ?thesis by blast
qed

section \<open>Colormap lookups\<close>

lemma take_drop_nth:
  "k + m \<le> length xs \<Longrightarrow> take m (drop k xs) = map (\<lambda>j. xs ! (k + j)) [0..<m]"
  by (simp add: list_eq_iff_nth_eq)

lemma take4_drop:
  "k + 4 \<le> length xs \<Longrightarrow> take 4 (drop k xs) = [xs ! k, xs ! (k + 1), xs ! (k + 2), xs ! (k + 3)]"
  by (simp add: take_drop_nth upt_rec [of _ "numeral _"] numeral_3_eq_3)

lemma take3_drop:
  "k + 3 \<le> length xs \<Longrightarrow> take 3 (drop k xs) = [xs ! k, xs ! (k + 1), xs ! (k + 2)]"
  by (simp add: take_drop_nth upt_rec [of _ "numeral _"] numeral_3_eq_3)

lemma in_range_int:
  "index_in_range index n i \<Longrightarrow> uint i - int index = int (unat i - index) \<and> unat i - index < n"
  by (auto simp add: index_in_range_def of_nat_diff)

lemma out_of_range_int:
  assumes "\<not> index_in_range index n i"
  shows "uint i - int index < 0 \<or> int n \<le> uint i - int index"
proof -
  have "uint i = int (unat i)" by simp
  moreover have "unat i < index \<or> index + n \<le> unat i"
    using assms by (auto simp add: index_in_range_def)
  ultimately show ?thesis by linarith
qed

lemma lookup4:
  assumes "length cmap = n * 4"
  shows "(case (peek_int cmap ((uint i - int index) * 4), peek_int cmap ((uint i - int index) * 4 + 1),
               peek_int cmap ((uint i - int index) * 4 + 2), peek_int cmap ((uint i - int index) * 4 + 3)) of
            (Some c0, Some c1, Some c2, Some c3) \<Rightarrow> f c0 c1 c2 c3
          | _ \<Rightarrow> None)
         = (if index_in_range index n i
            then f (cmap ! ((unat i - index) * 4)) (cmap ! ((unat i - index) * 4 + 1))
                   (cmap ! ((unat i - index) * 4 + 2)) (cmap ! ((unat i - index) * 4 + 3))
            else None)"
proof (cases "index_in_range index n i")
  case True
  define e where "e = unat i - index"
  have e: "uint i - int index = int e" "e < n"
    using in_range_int [OF True] by (simp_all add: e_def)
  have b: "e * 4 + 4 \<le> length cmap" using assms e(2) by simp
  have n: "nat (int e * 4) = e * 4" "nat (int e * 4 + 1) = e * 4 + 1"
    "nat (int e * 4 + 2) = e * 4 + 2" "nat (int e * 4 + 3) = e * 4 + 3"
    by (simp_all add: nat_add_distrib nat_mult_distrib)
  show ?thesis
    using True b
    unfolding e(1) peek_int_def n e_def [symmetric]
    by simp
next
  case False
  from out_of_range_int [OF this]
  have "(uint i - int index) * 4 < 0 \<or> int (length cmap) \<le> (uint i - int index) * 4"
    using assms by auto
  then have "peek_int cmap ((uint i - int index) * 4) = None"
    by (auto simp add: peek_int_def)
  with False show ?thesis by simp
qed

lemma lookup3:
  assumes "length cmap = n * 3"
  shows "(case (peek_int cmap ((uint i - int index) * 3), peek_int cmap ((uint i - int index) * 3 + 1),
               peek_int cmap ((uint i - int index) * 3 + 2)) of
            (Some c0, Some c1, Some c2) \<Rightarrow> f c0 c1 c2
          | _ \<Rightarrow> None)
         = (if index_in_range index n i
            then f (cmap ! ((unat i - index) * 3)) (cmap ! ((unat i - index) * 3 + 1))
                   (cmap ! ((unat i - index) * 3 + 2))
            else None)"
proof (cases "index_in_range index n i")
  case True
  define e where "e = unat i - index"
  have e: "uint i - int index = int e" "e < n"
    using in_range_int [OF True] by (simp_all add: e_def)
  have b: "e * 3 + 3 \<le> length cmap" using assms e(2) by simp
  have n: "nat (int e * 3) = e * 3" "nat (int e * 3 + 1) = e * 3 + 1"
    "nat (int e * 3 + 2) = e * 3 + 2"
    by (simp_all add: nat_add_distrib nat_mult_distrib)
  show ?thesis
    using True b
    unfolding e(1) peek_int_def n e_def [symmetric]
    by simp
next
  case False
  from out_of_range_int [OF this]
  have "(uint i - int index) * 3 < 0 \<or> int (length cmap) \<le> (uint i - int index) * 3"
    using assms by auto
  then have "peek_int cmap ((uint i - int index) * 3) = None"
    by (auto simp add: peek_int_def)
  with False show ?thesis by simp
qed

lemma cmap_entry4:
  "length cmap = n * 4 \<Longrightarrow> index_in_range index n i \<Longrightarrow>
   [cmap ! ((unat i - index) * 4), cmap ! ((unat i - index) * 4 + 1),
    cmap ! ((unat i - index) * 4 + 2), cmap ! ((unat i - index) * 4 + 3)]
   = cmap_entry cmap 4 (unat i - index)"
proof -
  assume a: "length cmap = n * 4" "index_in_range index n i"
  then have "unat i - index < n" by (auto simp add: index_in_range_def)
  then have "(unat i - index) * 4 + 4 \<le> length cmap" using a(1) by simp
  from take4_drop [OF this] show ?thesis by (simp add: cmap_entry_def)
qed

lemma cmap_entry3:
  "length cmap = n * 3 \<Longrightarrow> index_in_range index n i \<Longrightarrow>
   [cmap ! ((unat i - index) * 3), cmap ! ((unat i - index) * 3 + 1),
    cmap ! ((unat i - index) * 3 + 2)]
   = cmap_entry cmap 3 (unat i - index)"
proof -
  assume a: "length cmap = n * 3" "index_in_range index n i"
  then have "unat i - index < n" by (auto simp add: index_in_range_def)
  then have "(unat i - index) * 3 + 3 \<le> length cmap" using a(1) by simp
  from take3_drop [OF this] show ?thesis by (simp add: cmap_entry_def)
qed

lemma apply_colormap_from_lookup:
  assumes "length cmap = n * (if alpha then 4 else 3)"
  shows "p + m \<le> length src \<Longrightarrow>
         apply_colormap_from src p m cmap alpha index =
           (if list_all (index_in_range index n) (take m (drop p src))
            then Some (concat (map (\<lambda>i. cmap_entry cmap (if alpha then 4 else 3) (unat i - index))
                                 (take m (drop p src))))
            else None)"
proof (induction m arbitrary: p)
  case 0
  show ?case by simp
next
  case (Suc m)
  have p: "p < length src" using Suc.prems by simp
  then have pk: "peek src p = Some (src ! p)" by (simp add: peek_def)
  have tk: "take (Suc m) (drop p src) = src ! p # take m (drop (p + 1) src)"
    using p by (simp add: Cons_nth_drop_Suc [symmetric])
  have ih: "apply_colormap_from src (p + 1) m cmap alpha index =
           (if list_all (index_in_range index n) (take m (drop (p + 1) src))
            then Some (concat (map (\<lambda>i. cmap_entry cmap (if alpha then 4 else 3) (unat i - index))
                                 (take m (drop (p + 1) src))))
            else None)"
    using Suc.prems by (intro Suc.IH) simp
  show ?case
  proof (cases alpha)
    case True
    with assms have l: "length cmap = n * 4" by simp
    have "apply_colormap_from src p (Suc m) cmap True index =
          (if index_in_range index n (src ! p)
           then map_option ((@) [cmap ! ((unat (src ! p) - index) * 4),
                                  cmap ! ((unat (src ! p) - index) * 4 + 1),
                                  cmap ! ((unat (src ! p) - index) * 4 + 2),
                                  cmap ! ((unat (src ! p) - index) * 4 + 3)])
                  (apply_colormap_from src (p + 1) m cmap True index)
           else None)"
      by (simp only: apply_colormap_from.simps pk option.case if_True lookup4 [OF l])
    then show ?thesis
      using True ih cmap_entry4 [OF l, of index "src ! p"] unfolding tk
      by (simp del: apply_colormap_from.simps)
  next
    case False
    with assms have l: "length cmap = n * 3" by simp
    have "apply_colormap_from src p (Suc m) cmap False index =
          (if index_in_range index n (src ! p)
           then map_option ((@) [cmap ! ((unat (src ! p) - index) * 3),
                                  cmap ! ((unat (src ! p) - index) * 3 + 1),
                                  cmap ! ((unat (src ! p) - index) * 3 + 2)])
                  (apply_colormap_from src (p + 1) m cmap False index)
           else None)"
      by (simp only: apply_colormap_from.simps pk option.case if_False lookup3 [OF l])
    then show ?thesis
      using False ih cmap_entry3 [OF l, of index "src ! p"] unfolding tk
      by (simp del: apply_colormap_from.simps)
  qed
qed

section \<open>Claim about colormap indices out of range\<close>

text \<open>
  Claim C4 fails as stated: no index is checked. On an accepted file with a colormap of
  one entry and a pixel of index 5, \<open>apply_colormap\<close> reads outside the converted table
  and the load neither returns an image nor stops with a message.
\<close>

theorem index_out_of_range_counterexample:
  "load_image plain_env index_out_of_range_file = Undefined \<and>
   apply_colormap [5] 1 [30, 20, 10, 40] True 0 = None"
  by code_simp

text \<open>
  Claim C4, amended. \<open>apply_colormap\<close> checks no index. On a row of \<open>wd\<close> index bytes
  and a converted table of \<open>n\<close> entries of 4 bytes (with alpha) or 3 bytes (without): if
  every index byte lies in the range from \<open>index\<close> to \<open>index + n - 1\<close>, the bytes stored
  for each pixel are those of the entry at the index byte minus \<open>index\<close>; if some index
  byte lies outside that range, a read leaves the table (no failure is reported).
\<close>

theorem apply_colormap_lookup:
  assumes "wd \<le> length src" and "length cmap = n * (if alpha then 4 else 3)"
  shows "apply_colormap src wd cmap alpha index =
           (if list_all (index_in_range index n) (take wd src)
            then Some (concat (map (\<lambda>i. cmap_entry cmap (if alpha then 4 else 3) (unat i - index))
                                 (take wd src)))
            else None)"
  using apply_colormap_from_lookup [OF assms(2), of 0 wd src index] assms(1)
  by (simp add: apply_colormap_def)

theorem apply_colormap_lookup_witness:
  "apply_colormap [6, 5] 2 [1, 2, 3, 4, 5, 6] False 5 = Some [4, 5, 6, 1, 2, 3] \<and>
   apply_colormap [7, 5] 2 [1, 2, 3, 4, 5, 6] False 5 = None"
  using apply_colormap_lookup [of 2 "[6, 5]" "[1, 2, 3, 4, 5, 6]" 2 False 5]
    apply_colormap_lookup [of 2 "[7, 5]" "[1, 2, 3, 4, 5, 6]" 2 False 5]
  by (simp add: index_in_range_def cmap_entry_def)

section \<open>Claim about truncated pixel data\<close>

text \<open>
  Claim C2 is not what the code does. \<open>rle_read\<close> returns \<open>EOF\<close> when the stream ends,
  but \<open>read_line\<close> drops that value, and the value of its own \<open>fread\<close>, and \<open>ReadImage\<close>
  goes on with the next rows: both truncated files load, the missing rows filled with
  what the row buffer held.
\<close>

theorem truncated_pixel_data_loads:
  "load_image plain_env truncated_rle_file
     = Returned \<lparr>img_width = 2, img_height = 2, img_base_type = GIMP_GRAY, img_colormap = None,
                  layer_type = GIMP_GRAY_IMAGE, layer_pixels = [5, 5, 5, 5]\<rparr> \<and>
   load_image plain_env truncated_raw_file
     = Returned \<lparr>img_width = 2, img_height = 2, img_base_type = GIMP_GRAY, img_colormap = None,
                  layer_type = GIMP_GRAY_IMAGE, layer_pixels = [1, 0, 1, 0]\<rparr> \<and>
   rle_read [] [5, 5] (fix_alpha_bits (header_info (take 18 truncated_rle_file))) rle_reader_init
     = (EOF, rle_reader_init, [], [5, 5])"
  by code_simp

section \<open>The palette and the rows of an indexed image with alpha\<close>

lemma palette_from_entries:
  "(i + n) * 3 \<le> length gimp_cmap \<Longrightarrow>
   palette_from gimp_cmap i n with_alpha =
     (concat (map (\<lambda>j. [gimp_cmap ! (j * 3 + 2), gimp_cmap ! (j * 3 + 1), gimp_cmap ! (j * 3)]
                              @ (if with_alpha then [255] else []))
                  [i..<i + n]), True)"
proof (induction n arbitrary: i)
  case 0
  show ?case by simp
next
  case (Suc n)
  have "i * 3 + 2 < length gimp_cmap" using Suc.prems by simp
  then have pk: "peek gimp_cmap (i * 3 + 2) = Some (gimp_cmap ! (i * 3 + 2))"
    "peek gimp_cmap (i * 3 + 1) = Some (gimp_cmap ! (i * 3 + 1))"
    "peek gimp_cmap (i * 3 + 0) = Some (gimp_cmap ! (i * 3))"
    by (simp_all add: peek_def)
  have ih: "palette_from gimp_cmap (i + 1) n with_alpha =
     (concat (map (\<lambda>j. [gimp_cmap ! (j * 3 + 2), gimp_cmap ! (j * 3 + 1), gimp_cmap ! (j * 3)]
                              @ (if with_alpha then [255] else []))
                  [i + 1..<i + 1 + n]), True)"
    using Suc.prems by (intro Suc.IH) simp
  have up: "[i..<i + Suc n] = i # [i + 1..<i + 1 + n]"
    by (simp add: upt_rec [of i])
  show ?case
    unfolding palette_from.simps pk up using ih by simp
qed

lemma indexeda_palette:
  assumes "length gimp_cmap = num_colors * 3"
  shows "save_palette GIMP_INDEXEDA_IMAGE num_colors gimp_cmap =
           (concat (map (\<lambda>j. [gimp_cmap ! (j * 3 + 2), gimp_cmap ! (j * 3 + 1),
                                gimp_cmap ! (j * 3), 255]) [0..<num_colors])
            @ [0, 0, 0, 0], True)"
  using palette_from_entries [of 0 num_colors gimp_cmap True] assms
  by (simp add: save_palette_def)

text \<open>
  On a block of two bytes for each pixel the loop over the pixels would store the index
  or the byte of \<open>num_colors\<close>.
\<close>

lemma indexeda_from_row:
  "(i + n) * 2 \<le> length pixels \<Longrightarrow>
   indexeda_from pixels i n num_colors =
     Some (map (\<lambda>j. if 127 < unat (pixels ! (j * 2 + 1)) then pixels ! (j * 2) else of_nat num_colors)
               [i..<i + n])"
proof (induction n arbitrary: i)
  case 0
  show ?case by simp
next
  case (Suc n)
  have "i * 2 + 1 < length pixels" using Suc.prems by simp
  then have pk: "peek pixels (i * 2 + 1) = Some (pixels ! (i * 2 + 1))"
    "peek pixels (i * 2) = Some (pixels ! (i * 2))"
    by (simp_all add: peek_def)
  have ih: "indexeda_from pixels (i + 1) n num_colors =
     Some (map (\<lambda>j. if 127 < unat (pixels ! (j * 2 + 1)) then pixels ! (j * 2) else of_nat num_colors)
               [i + 1..<i + 1 + n])"
    using Suc.prems by (intro Suc.IH) simp
  have up: "[i..<i + Suc n] = i # [i + 1..<i + 1 + n]"
    by (simp add: upt_rec [of i])
  show ?case
    unfolding indexeda_from.simps pk up using ih by simp
qed

text \<open>
  On a block that is shorter than two bytes for each pixel the loop leaves the block.
\<close>

lemma indexeda_from_overrun:
  "length pixels < (i + n) * 2 \<Longrightarrow> 0 < n \<Longrightarrow> indexeda_from pixels i n num_colors = None"
proof (induction n arbitrary: i)
  case 0
  then show ?case by simp
next
  case (Suc n)
  show ?case
  proof (cases "n = 0")
    case True
    with Suc.prems have "\<not> i * 2 + 1 < length pixels" by simp
    then show ?thesis by (simp add: peek_def)
  next
    case False
    with Suc.prems have "indexeda_from pixels (i + 1) n num_colors = None"
      by (intro Suc.IH) simp_all
    then show ?thesis by (simp split: option.splits)
  qed
qed

lemma gegl_buffer_get_length:
  "gegl_buffer_get delivered pixels = Some filled \<Longrightarrow> length filled = length pixels"
  by (auto simp add: gegl_buffer_get_def store_checked_def store_bytes_def split: if_splits)

lemma indexeda_row_overrun:
  assumes "length pixels = wd * out_bpp GIMP_INDEXEDA_IMAGE" and "0 < wd"
  shows "save_row_data GIMP_INDEXEDA_IMAGE wd num_colors pixels delivered = None"
proof (cases "gegl_buffer_get delivered pixels")
  case None
  then show ?thesis by (simp add: save_row_data_def)
next
  case (Some filled)
  then have "length filled = wd" using assms(1) gegl_buffer_get_length by fastforce
  then have "indexeda_from filled 0 wd num_colors = None"
    using assms(2) by (intro indexeda_from_overrun) simp_all
  with Some show ?thesis by (simp add: save_row_data_def)
qed

lemma indexeda_rows_overrun:
  assumes "length pixels = wd * out_bpp GIMP_INDEXEDA_IMAGE" and "0 < wd" and "0 < n"
  shows "save_rows GIMP_INDEXEDA_IMAGE wd ht get_row num_colors rle origin pixels row n = ([], False)"
proof -
  from assms(3) obtain m where n: "n = Suc m" by (cases n) simp_all
  show ?thesis
    unfolding n save_rows.simps indexeda_row_overrun [OF assms(1,2)] by simp
qed

lemma g_new_length: "length (g_new junk n) = n"
  by (simp add: g_new_def)

lemma save_image_front:
  assumes "save_palette dtype num_colors gimp_cmap = (palette, True)"
  shows "\<exists>rest. fst (save_image True dtype wd ht get_row num_colors gimp_cmap rle origin junk)
           = save_header dtype wd ht num_colors rle origin @ palette @ rest"
  using assms by (simp add: save_image_def split: prod.splits)

lemma save_image_rows_overrun:
  assumes "save_palette dtype num_colors gimp_cmap = (palette, True)"
    and "save_rows dtype wd ht get_row num_colors rle origin (g_new junk (wd * out_bpp dtype)) 0 ht
           = ([], False)"
  shows "save_image True dtype wd ht get_row num_colors gimp_cmap rle origin junk
           = (save_header dtype wd ht num_colors rle origin @ palette, Undefined)"
  using assms by (simp add: save_image_def)

lemma save_header_length: "length (save_header dtype wd ht num_colors rle origin) = 18"
  by (cases dtype) (simp_all add: save_header_def)

lemma indexeda_header_length:
  assumes "num_colors + 1 < 65536"
  shows "unat (save_header GIMP_INDEXEDA_IMAGE wd ht num_colors rle origin ! 5)
         + 256 * unat (save_header GIMP_INDEXEDA_IMAGE wd ht num_colors rle origin ! 6)
         = num_colors + 1"
proof -
  have "(num_colors + 1) div 256 < 256" using assms by simp
  then have "unat (of_nat ((num_colors + 1) div 256) :: byte) = (num_colors + 1) div 256"
    by (simp add: unat_of_nat del: of_nat_add)
  moreover have "unat (of_nat ((num_colors + 1) mod 256) :: byte) = (num_colors + 1) mod 256"
    by (simp add: unat_of_nat del: of_nat_add)
  ultimately show ?thesis
    by (simp add: save_header_def del: of_nat_add)
qed

lemma indexeda_header_cmap:
  "save_header GIMP_INDEXEDA_IMAGE wd ht num_colors rle origin ! 1 = 1 \<and>
   save_header GIMP_INDEXEDA_IMAGE wd ht num_colors rle origin ! 7 = 32"
  by (simp add: save_header_def)

lemma concat_entries_length:
  "length (concat (map (\<lambda>j. [f j, g j, h j, k j]) [0..<n])) = n * 4"
  by (induction n) simp_all

lemma indexeda_reserved_entry:
  "cmap_entry (concat (map (\<lambda>j. [f j, g j, h j, k j]) [0..<n]) @ [0, 0, 0, 0]) 4 n = [0, 0, 0, 0]"
  by (simp add: cmap_entry_def concat_entries_length)

lemma concat_entry:
  "j < n \<Longrightarrow>
   cmap_entry (concat (map (\<lambda>j. [f j, g j, h j, k j]) [0..<n]) @ rest) 4 j = [f j, g j, h j, k j]"
proof (induction n arbitrary: rest)
  case 0
  then show ?case by simp
next
  case (Suc n)
  let ?A = "concat (map (\<lambda>j. [f j, g j, h j, k j]) [0..<n])"
  have A: "length ?A = n * 4" by (rule concat_entries_length)
  show ?case
  proof (cases "j < n")
    case True
    from Suc.IH [OF True, of "[f n, g n, h n, k n] @ rest"] show ?thesis by simp
  next
    case False
    with Suc.prems have "j = n" by simp
    then show ?thesis using A by (simp add: cmap_entry_def)
  qed
qed

text \<open>
  The other layouts fit their blocks: a drawable that delivers \<open>width * out_bpp\<close> bytes
  for each row is copied row by row, and \<open>save_image\<close> returns \<open>TRUE\<close>.
\<close>

lemma copied_row:
  assumes "dtype \<noteq> GIMP_RGB_IMAGE" "dtype \<noteq> GIMP_RGBA_IMAGE" "dtype \<noteq> GIMP_INDEXEDA_IMAGE"
    and "length pixels = wd * out_bpp dtype" and "length delivered = wd * out_bpp dtype"
  shows "save_row_data dtype wd num_colors pixels delivered = Some (delivered, delivered)"
  using assms
  by (simp add: save_row_data_def gegl_buffer_get_def store_checked_def store_bytes_def
      load_bytes_def)

lemma copied_rows:
  assumes "dtype \<noteq> GIMP_RGB_IMAGE" "dtype \<noteq> GIMP_RGBA_IMAGE" "dtype \<noteq> GIMP_INDEXEDA_IMAGE"
    and "length pixels = wd * out_bpp dtype" and "\<forall>y. length (get_row y) = wd * out_bpp dtype"
  shows "snd (save_rows dtype wd ht get_row num_colors rle origin pixels row n)"
  using assms(4)
proof (induction n arbitrary: row pixels)
  case 0
  show ?case by simp
next
  case (Suc n)
  let ?d = "get_row (if origin \<noteq> 0 then ht - (row + 1) else row)"
  have d: "length ?d = wd * out_bpp dtype" using assms(5) by blast
  have r: "save_row_data dtype wd num_colors pixels ?d = Some (?d, ?d)"
    using assms(1,2,3) Suc.prems d by (rule copied_row)
  have "snd (save_rows dtype wd ht get_row num_colors rle origin ?d (row + 1) n)"
    using d by (rule Suc.IH)
  then show ?case unfolding save_rows.simps r by simp
qed

lemma grey_alpha_saved:
  assumes "\<forall>y. length (get_row y) = wd * 2"
  shows "snd (save_image True GIMP_GRAYA_IMAGE wd ht get_row num_colors gimp_cmap rle origin junk)
           = Returned True"
proof -
  have "snd (save_rows GIMP_GRAYA_IMAGE wd ht get_row num_colors rle origin
               (g_new junk (wd * out_bpp GIMP_GRAYA_IMAGE)) 0 ht)"
    using assms by (intro copied_rows) (simp_all add: g_new_length)
  then obtain rows where "save_rows GIMP_GRAYA_IMAGE wd ht get_row num_colors rle origin
               (g_new junk (wd * out_bpp GIMP_GRAYA_IMAGE)) 0 ht = (rows, True)"
    by (cases "save_rows GIMP_GRAYA_IMAGE wd ht get_row num_colors rle origin
               (g_new junk (wd * out_bpp GIMP_GRAYA_IMAGE)) 0 ht") simp
  then show ?thesis
    by (simp add: save_image_def save_palette_def)
qed

lemma grey_saved_example:
  "save_image True GIMP_GRAY_IMAGE 2 1 grey_pixels 0 [] False 0 zero_block =
     ([0, 0, 3, 0, 0, 0, 0, 0, 0, 0, 1, 0, 2, 0, 1, 0, 8, 32] @ [7, 9] @ replicate 8 0 @ magic,
      Returned True)"
  by code_simp

section \<open>Claims about indexed images with alpha\<close>

text \<open>
  Claim C7 fails as stated. On an image of one pixel with alpha 0 and a colormap of one
  colour, the reserved entry written after the real one is four bytes 0, so its alpha
  byte is 0 where the real entry has 255; and the pixel is not written as the reserved
  index 1: the block \<open>pixels\<close> has one byte, the row of the drawable has two, and the
  export ends outside the block with the header and the palette as the only bytes
  written.
\<close>

theorem indexeda_reserved_entry_counterexample:
  "save_image True GIMP_INDEXEDA_IMAGE 1 1 transparent_pixel 1 [10, 20, 30] False 0 zero_block =
     ([0, 1, 1, 0, 0, 2, 0, 32, 0, 0, 1, 0, 1, 0, 1, 0, 8, 32] @ [30, 20, 10, 255] @ [0, 0, 0, 0],
      Undefined)"
  by code_simp

text \<open>
  Claim C7, amended. When an indexed image with alpha is encoded, the file starts with the
  18 bytes of the header, which declare a colormap (type 1) of \<open>num_colors + 1\<close> entries
  of 32 bits, followed by the \<open>num_colors\<close> real entries, each as blue, green, red and an
  alpha byte of 255, and by one reserved entry of four bytes 0, whose alpha byte is
  therefore 0. This holds for every size of the image and every content of the drawable;
  nothing is said of the bytes written for the pixels.
\<close>

theorem indexeda_palette_written:
  assumes "length gimp_cmap = num_colors * 3" and "num_colors + 1 < 65536"
  shows "(\<exists>rest.
            fst (save_image True GIMP_INDEXEDA_IMAGE wd ht get_row num_colors gimp_cmap rle origin junk)
              = save_header GIMP_INDEXEDA_IMAGE wd ht num_colors rle origin
                @ concat (map (\<lambda>j. [gimp_cmap ! (j * 3 + 2), gimp_cmap ! (j * 3 + 1),
                                     gimp_cmap ! (j * 3), 255]) [0..<num_colors])
                @ [0, 0, 0, 0] @ rest) \<and>
         length (save_header GIMP_INDEXEDA_IMAGE wd ht num_colors rle origin) = 18 \<and>
         save_header GIMP_INDEXEDA_IMAGE wd ht num_colors rle origin ! 1 = 1 \<and>
         save_header GIMP_INDEXEDA_IMAGE wd ht num_colors rle origin ! 7 = 32 \<and>
         unat (save_header GIMP_INDEXEDA_IMAGE wd ht num_colors rle origin ! 5)
           + 256 * unat (save_header GIMP_INDEXEDA_IMAGE wd ht num_colors rle origin ! 6)
           = num_colors + 1"
proof -
  from save_image_front [OF indexeda_palette [OF assms(1)], of wd ht get_row rle origin junk]
  have "\<exists>rest.
            fst (save_image True GIMP_INDEXEDA_IMAGE wd ht get_row num_colors gimp_cmap rle origin junk)
              = save_header GIMP_INDEXEDA_IMAGE wd ht num_colors rle origin
                @ concat (map (\<lambda>j. [gimp_cmap ! (j * 3 + 2), gimp_cmap ! (j * 3 + 1),
                                     gimp_cmap ! (j * 3), 255]) [0..<num_colors])
                @ [0, 0, 0, 0] @ rest"
    by simp
  then show ?thesis
    using save_header_length [of GIMP_INDEXEDA_IMAGE wd ht num_colors rle origin]
      indexeda_header_cmap [of wd ht num_colors rle origin]
      indexeda_header_length [OF assms(2), of wd ht rle origin]
    by blast
qed

theorem indexeda_palette_written_witness:
  "(\<exists>rest.
      fst (save_image True GIMP_INDEXEDA_IMAGE 2 1 opaque_and_transparent 2 [1, 2, 3, 4, 5, 6]
             False 0 zero_block)
        = save_header GIMP_INDEXEDA_IMAGE 2 1 2 False 0
          @ [3, 2, 1, 255, 6, 5, 4, 255] @ [0, 0, 0, 0] @ rest) \<and>
   unat (save_header GIMP_INDEXEDA_IMAGE 2 1 2 False 0 ! 5)
     + 256 * unat (save_header GIMP_INDEXEDA_IMAGE 2 1 2 False 0 ! 6) = 3"
  using indexeda_palette_written [of "[1, 2, 3, 4, 5, 6]" 2 2 1 opaque_and_transparent False 0
      zero_block]
  by (simp add: upt_rec [of _ "numeral _"])

text \<open>
  Claim C10 is not what the code does. For an indexed image with alpha \<open>out_bpp\<close> is 1,
  so the block \<open>pixels\<close> has \<open>width\<close> bytes, while the loop over the pixels reads
  \<open>pixels[i * 2 + 1]\<close> up to index \<open>2 * width - 1\<close>. For every image of at least one
  column and one row, and whatever row the drawable delivers, the first turn of the loop
  over the rows leaves the block before any byte of pixel data is written: neither the
  byte \<open>num_colors mod 256\<close> nor an index is emitted, and the export ends there with the
  header and the palette written.
\<close>

theorem indexeda_row_block_overrun:
  assumes "0 < wd" and "0 < ht" and "length gimp_cmap = num_colors * 3"
  shows "length (g_new junk (wd * out_bpp GIMP_INDEXEDA_IMAGE)) = wd \<and>
         save_row_data GIMP_INDEXEDA_IMAGE wd num_colors
           (g_new junk (wd * out_bpp GIMP_INDEXEDA_IMAGE)) delivered = None \<and>
         save_image True GIMP_INDEXEDA_IMAGE wd ht get_row num_colors gimp_cmap rle origin junk
           = (save_header GIMP_INDEXEDA_IMAGE wd ht num_colors rle origin
              @ concat (map (\<lambda>j. [gimp_cmap ! (j * 3 + 2), gimp_cmap ! (j * 3 + 1),
                                   gimp_cmap ! (j * 3), 255]) [0..<num_colors])
              @ [0, 0, 0, 0],
              Undefined)"
proof -
  have l: "length (g_new junk (wd * out_bpp GIMP_INDEXEDA_IMAGE)) = wd * out_bpp GIMP_INDEXEDA_IMAGE"
    by (rule g_new_length)
  have "save_image True GIMP_INDEXEDA_IMAGE wd ht get_row num_colors gimp_cmap rle origin junk
           = (save_header GIMP_INDEXEDA_IMAGE wd ht num_colors rle origin
              @ (concat (map (\<lambda>j. [gimp_cmap ! (j * 3 + 2), gimp_cmap ! (j * 3 + 1),
                                   gimp_cmap ! (j * 3), 255]) [0..<num_colors])
              @ [0, 0, 0, 0]),
              Undefined)"
    using indexeda_palette [OF assms(3)] indexeda_rows_overrun [OF l assms(1,2)]
    by (rule save_image_rows_overrun)
  then show ?thesis
    using l indexeda_row_overrun [OF l assms(1), of num_colors delivered] by simp
qed

theorem indexeda_row_block_overrun_witness:
  "save_image True GIMP_INDEXEDA_IMAGE 2 1 opaque_and_transparent 2 [1, 2, 3, 4, 5, 6] True 1
     zero_block
     = ([0, 1, 9, 0, 0, 3, 0, 32, 0, 0, 0, 0, 2, 0, 1, 0, 8, 0]
        @ [3, 2, 1, 255, 6, 5, 4, 255] @ [0, 0, 0, 0], Undefined)"
  using indexeda_row_block_overrun [of 2 1 "[1, 2, 3, 4, 5, 6]" 2 zero_block "[1, 255, 0, 0]"
      opaque_and_transparent True 1]
  by (simp add: upt_rec [of _ "numeral _"] save_header_def)

end
